theory Spec2Isabelle
  imports Main
begin

text \<open>
  The implicit-key splay tree of \<^verbatim>\<open>src/splay.h\<close> (the variant with \<^verbatim>\<open>insert\<close>, \<^verbatim>\<open>erase\<close>
  and lazy \<^verbatim>\<open>reverse\<close>), function by function.

  \<^item> The nodes owned through \<^verbatim>\<open>son_\<close> form a tree; a node keeps its address, which is what
    an iterator stores.
  \<^item> Every store to a \<^verbatim>\<open>son_\<close> slot in the source (\<^verbatim>\<open>link\<close>, \<^verbatim>\<open>rotate\<close>, \<^verbatim>\<open>swap\<close>) comes with
    the store to \<^verbatim>\<open>dad_\<close> of the node put there, so \<^verbatim>\<open>dad_\<close> of a node is the node that owns
    it. A pointer to a node is therefore kept as a cursor: the subtree at the node together
    with the chain of fathers above it. \<^verbatim>\<open>whichSon()\<close> and \<^verbatim>\<open>isRoot()\<close> read that chain.
  \<^item> A call returns, throws, or has undefined behaviour; the loops are total recursive
    functions, and a null pointer that the source would dereference is a value of its own.
  \<^item> An iterator is followed to wherever its node is, so the calls that take one are
    functions of the whole program: its containers, and the nodes that a \<^verbatim>\<open>merge\<close> of a
    container with itself has leaked.
\<close>

section \<open>Nodes (class SplayTree::Node)\<close>

text \<open>
  An owning pointer \<^verbatim>\<open>std::unique_ptr<Node>\<close> is either null or owns exactly one node, so
  the nodes below a pointer form a tree. \<open>Null\<close> is the null pointer; \<open>Node\<close> carries the
  address of the node (what \<^verbatim>\<open>get()\<close> returns and what an iterator stores) and the fields
  \<^verbatim>\<open>data_\<close>, \<^verbatim>\<open>son_[0]\<close>, \<^verbatim>\<open>son_[1]\<close>, \<^verbatim>\<open>subtree_size_\<close> and \<^verbatim>\<open>reverse_\<close>.
  \<^verbatim>\<open>size_type\<close> is \<^verbatim>\<open>std::size_t\<close>; a counter of nodes that exist in memory cannot wrap, so it
  is a natural number. The back pointer \<^verbatim>\<open>dad_\<close> is not a field here: it is the path above
  the node (see the cursors below).
\<close>

datatype 'a tree =
  Null
  | Node (addr: nat) (data: 'a) (son0: "'a tree") (son1: "'a tree")
         (subtree_size: nat) (reverse_flag: bool)

text \<open>\<^verbatim>\<open>p ? p->subtree_size_ : 0\<close>\<close>

fun ssize :: "'a tree \<Rightarrow> nat" where
  "ssize Null = 0"
| "ssize (Node a x l r s f) = s"

text \<open>\<^verbatim>\<open>Node::leftSubtreeSize\<close>\<close>

fun leftSubtreeSize :: "'a tree \<Rightarrow> nat" where
  "leftSubtreeSize Null = 0"
| "leftSubtreeSize (Node a x l r s f) = ssize l"

text \<open>\<^verbatim>\<open>Node::updateSubtreeSize\<close>\<close>

fun updateSubtreeSize :: "'a tree \<Rightarrow> 'a tree" where
  "updateSubtreeSize Null = Null"
| "updateSubtreeSize (Node a x l r s f) = Node a x l r (1 + ssize l + ssize r) f"

text \<open>\<^verbatim>\<open>if (son_[dir]) son_[dir]->reverse_ ^= 1\<close>\<close>

fun toggle :: "'a tree \<Rightarrow> 'a tree" where
  "toggle Null = Null"
| "toggle (Node a x l r s f) = Node a x l r s (\<not> f)"

text \<open>\<^verbatim>\<open>Node::push\<close>\<close>

fun push :: "'a tree \<Rightarrow> 'a tree" where
  "push Null = Null"
| "push (Node a x l r s f) =
     (if f then Node a x (toggle r) (toggle l) s False else Node a x l r s f)"

text \<open>\<^verbatim>\<open>Node::link(son, dir)\<close>: the son replaces \<^verbatim>\<open>son_[dir]\<close> (what was there is destroyed).\<close>

fun link :: "'a tree \<Rightarrow> bool \<Rightarrow> 'a tree \<Rightarrow> 'a tree" where
  "link son dir Null = Null"
| "link son dir (Node a x l r s f) =
     updateSubtreeSize (if dir then Node a x l son s f else Node a x son r s f)"

text \<open>\<^verbatim>\<open>std::make_unique<Node>(e)\<close>, allocated at address \<open>a\<close>.\<close>

definition new_node :: "nat \<Rightarrow> 'a \<Rightarrow> 'a tree" where
  "new_node a e = Node a e Null Null 1 False"

section \<open>The container (class SplayTree)\<close>

text \<open>
  The container is its sentinel \<^verbatim>\<open>dummy_\<close>. Of the sentinel's fields only \<^verbatim>\<open>son_[0]\<close> (the
  root) and \<^verbatim>\<open>subtree_size_\<close> ever change: no code path stores into its \<^verbatim>\<open>son_[1]\<close>,
  \<^verbatim>\<open>reverse_\<close> or \<^verbatim>\<open>dad_\<close>, which stay null, false and the self loop.
\<close>

record 'a SplayTree =
  dummy_son :: "'a tree"
  dummy_size :: nat

text \<open>The default constructor: a fresh \<^verbatim>\<open>Node\<close> has \<^verbatim>\<open>subtree_size_ = 1\<close>.\<close>

definition empty_tree :: "'a SplayTree" where
  "empty_tree = \<lparr>dummy_son = Null, dummy_size = 1\<rparr>"

text \<open>\<^verbatim>\<open>empty()\<close>\<close>

definition tree_empty :: "'a SplayTree \<Rightarrow> bool" where
  "tree_empty t = (case dummy_son t of Null \<Rightarrow> True | Node a x l r s f \<Rightarrow> False)"

text \<open>\<^verbatim>\<open>size()\<close>: \<^verbatim>\<open>dummy_.leftSubtreeSize()\<close>\<close>

definition tree_size :: "'a SplayTree \<Rightarrow> nat" where
  "tree_size t = ssize (dummy_son t)"

text \<open>\<^verbatim>\<open>dummy_.link(son, 0)\<close>\<close>

definition dummy_link :: "'a tree \<Rightarrow> 'a SplayTree" where
  "dummy_link son = \<lparr>dummy_son = son, dummy_size = 1 + ssize son\<rparr>"

text \<open>
  \<^verbatim>\<open>swap\<close>: exchanges the roots and recomputes both sentinels' counters. The pair is
  (receiver, argument) after the call.
\<close>

definition swap :: "'a SplayTree \<Rightarrow> 'a SplayTree \<Rightarrow> 'a SplayTree \<times> 'a SplayTree" where
  "swap this rhs = (dummy_link (dummy_son rhs), dummy_link (dummy_son this))"

section \<open>Outcomes\<close>

text \<open>
  A call returns, throws a C++ exception (the state given is the container, or the whole
  program, at the throw), or has undefined behaviour: it dereferences a null pointer, or it
  is handed an iterator whose node is not where the function looks (in the receiver, for the
  functions of a single container; anywhere in the program, for the functions of a program,
  where such an iterator is a dangling pointer).
\<close>

datatype exn = out_of_range | runtime_error

datatype ub = null_deref | foreign_iterator

datatype ('r, 's) outcome = Return 'r | Throw exn 's | UB ub

section \<open>Node references\<close>

text \<open>
  A frame is a node seen from one of its sons: \<open>fdir\<close> is the side the son hangs on (what the
  son's \<^verbatim>\<open>whichSon()\<close> returns), \<open>fother\<close> the other son. A cursor is a \<^verbatim>\<open>Node*\<close> into a
  container: the subtree at the node, the chain of \<^verbatim>\<open>dad_\<close> pointers above it (nearest
  first; above the last frame is the sentinel) and the sentinel's counter. A null focus is
  the null pointer reached below the last frame.
\<close>

datatype 'a frame =
  Frame (fdir: bool) (faddr: nat) (fdata: 'a) (fother: "'a tree") (fsize: nat) (frev: bool)

datatype 'a cursor = Cursor (focus: "'a tree") (dads: "'a frame list") (csize: nat)

fun attach :: "'a frame \<Rightarrow> 'a tree \<Rightarrow> 'a tree" where
  "attach (Frame d a x other s f) t = (if d then Node a x other t s f else Node a x t other s f)"

text \<open>\<^verbatim>\<open>p = p->dad_\<close>\<close>

fun up :: "'a cursor \<Rightarrow> 'a cursor" where
  "up (Cursor t [] ds) = Cursor t [] ds"
| "up (Cursor t (v # path) ds) = Cursor (attach v t) path ds"

text \<open>\<^verbatim>\<open>p = p->son_[dir].get()\<close>\<close>

fun down :: "bool \<Rightarrow> 'a cursor \<Rightarrow> 'a cursor" where
  "down dir (Cursor Null path ds) = Cursor Null path ds"
| "down dir (Cursor (Node a x l r s f) path ds) =
     (if dir then Cursor r (Frame True a x l s f # path) ds
      else Cursor l (Frame False a x r s f # path) ds)"

text \<open>The container a cursor points into.\<close>

fun plug :: "'a tree \<Rightarrow> 'a frame list \<Rightarrow> 'a tree" where
  "plug t [] = t"
| "plug t (v # path) = plug (attach v t) path"

fun close :: "'a cursor \<Rightarrow> 'a SplayTree" where
  "close (Cursor t path ds) = \<lparr>dummy_son = plug t path, dummy_size = ds\<rparr>"

text \<open>\<^verbatim>\<open>&root()\<close>\<close>

definition root :: "'a SplayTree \<Rightarrow> 'a cursor" where
  "root t = Cursor (dummy_son t) [] (dummy_size t)"

text \<open>
  \<^verbatim>\<open>push()\<close> called on the father of the focus: the sons change sides, so the focus hangs on
  the other side, and both sons' flags are flipped.
\<close>

fun push_dad :: "'a frame \<Rightarrow> 'a tree \<Rightarrow> 'a frame \<times> 'a tree" where
  "push_dad (Frame d a x other s f) t =
     (if f then (Frame (\<not> d) a x (toggle other) s False, toggle t)
      else (Frame d a x other s f, t))"

text \<open>\<^verbatim>\<open>push()\<close> called on the grandfather \<open>w\<close>: the son whose flag flips is the father \<open>v\<close>.\<close>

fun push_granddad :: "'a frame \<Rightarrow> 'a frame \<Rightarrow> 'a frame \<times> 'a frame" where
  "push_granddad (Frame d a x other s f) (Frame vd va vx vother vs vf) =
     (if f then (Frame (\<not> d) a x (toggle other) s False, Frame vd va vx vother vs (\<not> vf))
      else (Frame d a x other s f, Frame vd va vx vother vs vf))"

section \<open>rotate and splay\<close>

text \<open>
  \<^verbatim>\<open>w.updateSubtreeSize()\<close> for the node \<open>w\<close> above the rotated pair, whose son on the
  rotated side is now \<open>u\<close>: \<open>w\<close> is the next frame, or the sentinel.
\<close>

fun update_above :: "'a tree \<Rightarrow> 'a frame list \<Rightarrow> nat \<Rightarrow> 'a frame list \<times> nat" where
  "update_above u [] ds = ([], 1 + ssize u)"
| "update_above u (Frame d a x other s f # path) ds =
     (Frame d a x other (1 + ssize u + ssize other) f # path, ds)"

text \<open>
  \<^verbatim>\<open>rotate(u)\<close>. The cursor stays on \<open>u\<close>. With \<open>v\<close> the father and \<open>dir\<close> the side of \<open>u\<close>:
  \<open>v\<close> receives \<open>u\<close>'s son on the side \<open>!dir\<close> as its son on the side \<open>dir\<close>, \<open>u\<close> receives \<open>v\<close>
  as its son on the side \<open>!dir\<close>, and \<open>u\<close> takes the place of \<open>v\<close> under \<open>w\<close>; then the three
  counters are recomputed, \<open>v\<close> first.
\<close>

fun rotate_node :: "'a cursor \<Rightarrow> ('a cursor, 'a SplayTree) outcome" where
  "rotate_node (Cursor u [] ds) = Throw runtime_error (close (Cursor u [] ds))"
| "rotate_node (Cursor Null (v # path) ds) = UB null_deref"
| "rotate_node (Cursor (Node a x l r s f) (Frame dir va vx vother vs vf # path) ds) =
     (let v = updateSubtreeSize
                (if dir then Node va vx vother l vs vf else Node va vx r vother vs vf);
          u = updateSubtreeSize
                (if dir then Node a x v r s f else Node a x l v s f);
          (path', ds') = update_above u path ds
      in Return (Cursor u path' ds'))"

text \<open>
  One iteration of the loop of \<^verbatim>\<open>splay(u)\<close>, entered when \<^verbatim>\<open>isRoot(u)\<close> is false.
  \<^verbatim>\<open>isRoot(v)\<close> holds when the father of \<open>v\<close> is the sentinel, that is when \<open>v\<close> is the only
  frame. After \<^verbatim>\<open>rotate(v)\<close> the node \<open>u\<close> is still the son of \<open>v\<close> on the side \<open>u_dir\<close>
  (that rotation replaces the son of \<open>v\<close> on the other side), which is where the cursor
  returns to.
\<close>

fun splay_step :: "'a cursor \<Rightarrow> ('a cursor, 'a SplayTree) outcome" where
  "splay_step (Cursor u [] ds) = Return (Cursor u [] ds)"
| "splay_step (Cursor u [v] ds) =
     (let (v1, u1) = push_dad v u;
          u2 = push u1
      in rotate_node (Cursor u2 [v1] ds))"
| "splay_step (Cursor u (v # w # path) ds) =
     (let (w1, v1) = push_granddad w v;
          (v2, u1) = push_dad v1 u;
          u2 = push u1;
          u_dir = fdir v2;
          v_dir = fdir w1
      in if u_dir = v_dir then
           (case rotate_node (up (Cursor u2 (v2 # w1 # path) ds)) of
              Return c \<Rightarrow> rotate_node (down u_dir c)
            | Throw e t \<Rightarrow> Throw e t
            | UB b \<Rightarrow> UB b)
         else
           (case rotate_node (Cursor u2 (v2 # w1 # path) ds) of
              Return c \<Rightarrow> rotate_node c
            | Throw e t \<Rightarrow> Throw e t
            | UB b \<Rightarrow> UB b))"

lemma update_above_length:
  "update_above u path ds = (path', ds') \<Longrightarrow> length path' = length path"
  by (induction u path ds rule: update_above.induct) auto

lemma rotate_node_dads:
  "rotate_node c = Return c' \<Longrightarrow> Suc (length (dads c')) = length (dads c)"
  by (induction c rule: rotate_node.induct)
     (auto simp: Let_def split: prod.splits dest: update_above_length)

lemma down_dads: "length (dads (down d c)) \<le> Suc (length (dads c))"
  by (induction d c rule: down.induct) auto

lemma splay_step_dads:
  assumes "splay_step c = Return c'" and "dads c \<noteq> []"
  shows "length (dads c') < length (dads c)"
proof (cases c rule: splay_step.cases)
  case (1 u ds)
  with assms show ?thesis by auto
next
  case (2 u v ds)
  with assms show ?thesis
    by (auto simp: Let_def split: prod.splits dest: rotate_node_dads)
next
  case (3 u v w path ds)
  obtain w1 v1 where gd: "push_granddad w v = (w1, v1)" by (cases "push_granddad w v")
  obtain v2 u1 where d: "push_dad v1 u = (v2, u1)" by (cases "push_dad v1 u")
  show ?thesis
  proof (cases "fdir v2 = fdir w1")
    case True
    with assms 3 gd d obtain c1 where
      r1: "rotate_node (Cursor (attach v2 (push u1)) (w1 # path) ds) = Return c1" and
      r2: "rotate_node (down (fdir v2) c1) = Return c'"
      by (auto simp: Let_def split: outcome.splits)
    from r1 have "length (dads c1) = length path"
      by (auto dest!: rotate_node_dads)
    then have "length (dads (down (fdir v2) c1)) \<le> Suc (length path)"
      using down_dads [of "fdir v2" c1] by simp
    with r2 have "length (dads c') \<le> length path"
      by (auto dest!: rotate_node_dads)
    with 3 show ?thesis by simp
  next
    case False
    with assms 3 gd d obtain c1 where
      r1: "rotate_node (Cursor (push u1) (v2 # w1 # path) ds) = Return c1" and
      r2: "rotate_node c1 = Return c'"
      by (auto simp: Let_def split: outcome.splits)
    from r1 have "length (dads c1) = Suc (length path)"
      by (auto dest!: rotate_node_dads)
    with r2 have "length (dads c') = length path"
      by (auto dest!: rotate_node_dads)
    with 3 show ?thesis by simp
  qed
qed

text \<open>\<^verbatim>\<open>while (!isRoot(u)) { ... }\<close>\<close>

function splay_loop :: "'a cursor \<Rightarrow> ('a cursor, 'a SplayTree) outcome" where
  "splay_loop u =
     (case dads u of
        [] \<Rightarrow> Return u
      | v # path \<Rightarrow>
          (case splay_step u of
             Return u' \<Rightarrow> splay_loop u'
           | Throw e t \<Rightarrow> Throw e t
           | UB b \<Rightarrow> UB b))"
  by pat_completeness auto
termination
  by (relation "measure (\<lambda>c. length (dads c))")
     (auto dest: splay_step_dads)

text \<open>
  What a \<^verbatim>\<open>Node*\<close> or \<^verbatim>\<open>Node&\<close> can refer to: the sentinel of the container, or a node
  in it.
\<close>

datatype 'a node_ref = Dummy "'a SplayTree" | At "'a cursor"

fun close_ref :: "'a node_ref \<Rightarrow> 'a SplayTree" where
  "close_ref (Dummy t) = t"
| "close_ref (At c) = close c"

text \<open>\<^verbatim>\<open>splay(u)\<close>\<close>

fun splay :: "'a node_ref \<Rightarrow> ('a cursor, 'a SplayTree) outcome" where
  "splay (Dummy t) = Throw runtime_error t"
| "splay (At c) = splay_loop c"

section \<open>findNode and at\<close>

text \<open>\<^verbatim>\<open>p->push()\<close> for the node the cursor is on.\<close>

fun push_focus :: "'a cursor \<Rightarrow> 'a cursor" where
  "push_focus (Cursor t path ds) = Cursor (push t) path ds"

lemma size_toggle [simp]: "size (toggle t) = size t"
  by (cases t) auto

lemma size_down_push:
  "focus c = Node a x l r s f \<Longrightarrow>
   size (focus (down dir (push_focus c))) < Suc (size l + size r)"
  by (cases c) auto

text \<open>
  The loop of \<^verbatim>\<open>findNode(i)\<close>, with the loop variables \<open>cumulated\<close> and \<open>p\<close>. The source
  has no exit for a null \<open>p\<close>: the next \<^verbatim>\<open>p->push()\<close> dereferences it.
\<close>

function findNode_loop :: "nat \<Rightarrow> nat \<Rightarrow> 'a cursor \<Rightarrow> ('a cursor, 'a SplayTree) outcome" where
  "findNode_loop i cumulated p =
     (case focus p of
        Null \<Rightarrow> UB null_deref
      | Node a x l r s f \<Rightarrow>
          (let p' = push_focus p;
               index = cumulated + leftSubtreeSize (focus p')
           in if index = i then Return p'
              else if i < index then findNode_loop i cumulated (down False p')
              else findNode_loop i (index + 1) (down True p')))"
  by pat_completeness auto
termination
  by (relation "measure (\<lambda>(i, cumulated, p). size (focus p))")
     (auto simp: size_down_push)

definition findNode :: "nat \<Rightarrow> 'a SplayTree \<Rightarrow> ('a cursor, 'a SplayTree) outcome" where
  "findNode i t = findNode_loop i 0 (root t)"

text \<open>\<^verbatim>\<open>root().data_\<close>\<close>

definition root_data :: "'a SplayTree \<Rightarrow> 'a option" where
  "root_data t = (case dummy_son t of Null \<Rightarrow> None | Node a x l r s f \<Rightarrow> Some x)"

text \<open>The non-const \<^verbatim>\<open>at(i)\<close>: the value returned and the container after the call.\<close>

definition at :: "nat \<Rightarrow> 'a SplayTree \<Rightarrow> ('a \<times> 'a SplayTree, 'a SplayTree) outcome" where
  "at i t =
     (if i \<ge> tree_size t then Throw out_of_range t
      else case findNode i t of
             Return p \<Rightarrow>
               (case splay (At p) of
                  Return c \<Rightarrow>
                    (case root_data (close c) of
                       None \<Rightarrow> UB null_deref
                     | Some x \<Rightarrow> Return (x, close c))
                | Throw e t' \<Rightarrow> Throw e t'
                | UB b \<Rightarrow> UB b)
           | Throw e t' \<Rightarrow> Throw e t'
           | UB b \<Rightarrow> UB b)"

text \<open>The const \<^verbatim>\<open>at(i)\<close>: no splay; \<^verbatim>\<open>dummy_\<close> is mutable and \<^verbatim>\<open>findNode\<close> still pushes.\<close>

definition at_const :: "nat \<Rightarrow> 'a SplayTree \<Rightarrow> ('a \<times> 'a SplayTree, 'a SplayTree) outcome" where
  "at_const i t =
     (if i \<ge> tree_size t then Throw out_of_range t
      else case findNode i t of
             Return p \<Rightarrow>
               (case focus p of
                  Null \<Rightarrow> UB null_deref
                | Node a x l r s f \<Rightarrow> Return (x, close p))
           | Throw e t' \<Rightarrow> Throw e t'
           | UB b \<Rightarrow> UB b)"

section \<open>Iterators\<close>

text \<open>
  An iterator stores a \<^verbatim>\<open>Node*\<close>: the address of a node, or of the sentinel (\<^verbatim>\<open>end()\<close>).
  The functions of a single container take an iterator of the receiver: they find the node
  of that address in the receiver, and an address that is not there is an iterator into
  another container, which they do not follow. The functions that follow an iterator to
  wherever its node is come with the objects of a program, below.
\<close>

datatype iterator = End | It nat

fun locate :: "nat \<Rightarrow> 'a tree \<Rightarrow> 'a frame list \<Rightarrow> ('a tree \<times> 'a frame list) option" where
  "locate n Null path = None"
| "locate n (Node a x l r s f) path =
     (if n = a then Some (Node a x l r s f, path)
      else case locate n l (Frame False a x r s f # path) of
             Some found \<Rightarrow> Some found
           | None \<Rightarrow> locate n r (Frame True a x l s f # path))"

fun resolve :: "iterator \<Rightarrow> 'a SplayTree \<Rightarrow> 'a node_ref option" where
  "resolve End t = Some (Dummy t)"
| "resolve (It n) t =
     (case locate n (dummy_son t) [] of
        None \<Rightarrow> None
      | Some (u, path) \<Rightarrow> Some (At (Cursor u path (dummy_size t))))"

text \<open>\<^verbatim>\<open>iterator(p)\<close> for a node reference.\<close>

fun iterator_of :: "'a node_ref \<Rightarrow> iterator option" where
  "iterator_of (Dummy t) = Some End"
| "iterator_of (At (Cursor Null path ds)) = None"
| "iterator_of (At (Cursor (Node a x l r s f) path ds)) = Some (It a)"

text \<open>\<^verbatim>\<open>operator*\<close> on an iterator of a node of the container.\<close>

fun deref :: "iterator \<Rightarrow> 'a SplayTree \<Rightarrow> 'a option" where
  "deref End t = None"
| "deref (It n) t =
     (case locate n (dummy_son t) [] of
        Some (Node a x l r s f, path) \<Rightarrow> Some x
      | _ \<Rightarrow> None)"

text \<open>\<^verbatim>\<open>while (node_->son_[dir]) { node_ = node_->son_[dir].get(); node_->push(); }\<close>\<close>

function descend :: "bool \<Rightarrow> 'a cursor \<Rightarrow> 'a cursor" where
  "descend dir c =
     (case focus c of
        Null \<Rightarrow> c
      | Node a x l r s f \<Rightarrow>
          (case focus (down dir c) of
             Null \<Rightarrow> c
           | Node a' x' l' r' s' f' \<Rightarrow> descend dir (push_focus (down dir c))))"
  by pat_completeness auto
termination
  by (relation "measure (\<lambda>(dir, c). size (focus c))")
     (auto, case_tac c, auto split: if_splits)

text \<open>
  The ascent of \<^verbatim>\<open>operator++\<close>: \<^verbatim>\<open>while (node_->whichSon()) node_ = node_->dad_;\<close> and
  then \<^verbatim>\<open>node_ = node_->dad_\<close>. The root is the sentinel's \<^verbatim>\<open>son_[0]\<close>, so its
  \<^verbatim>\<open>whichSon()\<close> is false and its father is the sentinel.
\<close>

function climb_inc :: "'a cursor \<Rightarrow> 'a node_ref" where
  "climb_inc (Cursor t [] ds) = Dummy (close (Cursor t [] ds))"
| "climb_inc (Cursor t (v # path) ds) =
     (if fdir v then climb_inc (Cursor (attach v t) path ds)
      else At (Cursor (attach v t) path ds))"
  by pat_completeness auto
termination
  by (relation "measure (\<lambda>c. length (dads c))") auto

text \<open>\<^verbatim>\<open>Iterator::operator++\<close>\<close>

fun inc :: "'a node_ref \<Rightarrow> ('a node_ref, 'a SplayTree) outcome" where
  "inc (Dummy t) = Throw runtime_error t"
| "inc (At c) =
     (case focus c of
        Null \<Rightarrow> UB null_deref
      | Node a x l r s f \<Rightarrow>
          (let c1 = push_focus c
           in case focus (down True c1) of
                Node a' x' l' r' s' f' \<Rightarrow> Return (At (descend False (push_focus (down True c1))))
              | Null \<Rightarrow> Return (climb_inc c1)))"

text \<open>
  The ascent of \<^verbatim>\<open>operator--\<close>:
  \<^verbatim>\<open>while (!node_->whichSon()) { node_ = node_->dad_; if (node_->dad_ == node_) throw; }\<close>
  and then \<^verbatim>\<open>node_ = node_->dad_\<close>.
\<close>

function climb_dec :: "'a cursor \<Rightarrow> ('a cursor, 'a SplayTree) outcome" where
  "climb_dec (Cursor t [] ds) = Throw runtime_error (close (Cursor t [] ds))"
| "climb_dec (Cursor t (v # path) ds) =
     (if \<not> fdir v then climb_dec (Cursor (attach v t) path ds)
      else Return (Cursor (attach v t) path ds))"
  by pat_completeness auto
termination
  by (relation "measure (\<lambda>c. length (dads c))") auto

text \<open>
  \<^verbatim>\<open>Iterator::operator--\<close>. On the sentinel \<^verbatim>\<open>push()\<close> does nothing (its flag is never
  set); with an empty container the sentinel is not its own \<^verbatim>\<open>son_[1]\<close>, the loop steps to
  \<^verbatim>\<open>dad_\<close>, the sentinel again, and throws.
\<close>

fun dec :: "'a node_ref \<Rightarrow> ('a cursor, 'a SplayTree) outcome" where
  "dec (Dummy t) =
     (case dummy_son t of
        Null \<Rightarrow> Throw runtime_error t
      | Node a x l r s f \<Rightarrow> Return (descend True (push_focus (root t))))"
| "dec (At c) =
     (case focus c of
        Null \<Rightarrow> UB null_deref
      | Node a x l r s f \<Rightarrow>
          (let c1 = push_focus c
           in case focus (down False c1) of
                Node a' x' l' r' s' f' \<Rightarrow> Return (descend True (push_focus (down False c1)))
              | Null \<Rightarrow> climb_dec c1))"

text \<open>\<^verbatim>\<open>begin()\<close> and \<^verbatim>\<open>end()\<close>\<close>

definition begin_it :: "'a SplayTree \<Rightarrow> (iterator \<times> 'a SplayTree, 'a SplayTree) outcome" where
  "begin_it t =
     (if tree_empty t then Return (End, t)
      else case findNode 0 t of
             Return p \<Rightarrow>
               (case iterator_of (At p) of
                  None \<Rightarrow> UB null_deref
                | Some it \<Rightarrow> Return (it, close p))
           | Throw e t' \<Rightarrow> Throw e t'
           | UB b \<Rightarrow> UB b)"

definition end_it :: "'a SplayTree \<Rightarrow> iterator" where
  "end_it t = End"

section \<open>split and merge\<close>

text \<open>
  \<^verbatim>\<open>split(const_iterator it)\<close> for the resolved iterator. The pair returned is (receiver
  after the call, new container). When \<^verbatim>\<open>--prev\<close> throws, \<^verbatim>\<open>return std::move(*this)\<close>
  move-constructs the result: a fresh container swapped with the receiver.
\<close>

definition split_ref :: "'a node_ref \<Rightarrow> ('a SplayTree \<times> 'a SplayTree, 'a SplayTree) outcome" where
  "split_ref it =
     (case dec it of
        Throw runtime_error t \<Rightarrow>
          (let (result, this) = swap empty_tree t in Return (this, result))
      | Throw out_of_range t \<Rightarrow> Throw out_of_range t
      | UB b \<Rightarrow> UB b
      | Return prev \<Rightarrow>
          (case splay (At prev) of
             Throw e t \<Rightarrow> Throw e t
           | UB b \<Rightarrow> UB b
           | Return c \<Rightarrow>
               (case dummy_son (close c) of
                  Null \<Rightarrow> UB null_deref
                | Node a x l r s f \<Rightarrow>
                    Return (\<lparr>dummy_son = updateSubtreeSize (Node a x l Null s f),
                             dummy_size = dummy_size (close c)\<rparr>,
                            dummy_link r))))"

text \<open>\<^verbatim>\<open>split(const_iterator)\<close>\<close>

definition split_it :: "iterator \<Rightarrow> 'a SplayTree \<Rightarrow> ('a SplayTree \<times> 'a SplayTree, 'a SplayTree) outcome" where
  "split_it it t =
     (case resolve it t of
        None \<Rightarrow> UB foreign_iterator
      | Some r \<Rightarrow> split_ref r)"

text \<open>\<^verbatim>\<open>split(size_type left_size)\<close>: \<^verbatim>\<open>split(const_iterator(&findNode(left_size)))\<close>\<close>

definition split :: "nat \<Rightarrow> 'a SplayTree \<Rightarrow> ('a SplayTree \<times> 'a SplayTree, 'a SplayTree) outcome" where
  "split left_size t =
     (case findNode left_size t of
        Return p \<Rightarrow> split_ref (At p)
      | Throw e t' \<Rightarrow> Throw e t'
      | UB b \<Rightarrow> UB b)"

text \<open>
  \<^verbatim>\<open>merge(rhs)\<close>, for an argument that is another container than the receiver. The pair
  returned is (receiver, argument) after the call.
\<close>

definition merge :: "'a SplayTree \<Rightarrow> 'a SplayTree \<Rightarrow> ('a SplayTree \<times> 'a SplayTree, 'a SplayTree) outcome" where
  "merge this rhs =
     (if tree_empty this then Return (swap this rhs)
      else if tree_empty rhs then Return (this, rhs)
      else case findNode (tree_size this - 1) this of
             Throw e t \<Rightarrow> Throw e t
           | UB b \<Rightarrow> UB b
           | Return p \<Rightarrow>
               (case splay (At p) of
                  Throw e t \<Rightarrow> Throw e t
                | UB b \<Rightarrow> UB b
                | Return c \<Rightarrow>
                    (case dummy_son (close c) of
                       Null \<Rightarrow> UB null_deref
                     | Node a x l r s f \<Rightarrow>
                         Return (\<lparr>dummy_son = link (dummy_son rhs) True (Node a x l r s f),
                                  dummy_size = dummy_size (close c)\<rparr>,
                                 rhs\<lparr>dummy_son := Null\<rparr>))))"

text \<open>
  The nodes leaked by \<^verbatim>\<open>t.merge(std::move(t))\<close>: the address and the \<^verbatim>\<open>data_\<close> of the node
  \<open>R\<close> that was the root, and what is below its \<^verbatim>\<open>son_[0]\<close>. \<open>R\<close> owns itself through its
  \<^verbatim>\<open>son_[1]\<close> and is its own \<^verbatim>\<open>dad_\<close>, which is what a sentinel is to the nodes below its
  \<^verbatim>\<open>son_[0]\<close>: \<^verbatim>\<open>isRoot\<close> holds for the son of \<open>R\<close>, whose \<^verbatim>\<open>whichSon()\<close> is false, and
  \<^verbatim>\<open>R.dad_ == R\<close>. So the nodes below \<open>R\<close> are kept as a container with \<open>R\<close> for sentinel.
  \<^verbatim>\<open>R.reverse_\<close> is false (\<^verbatim>\<open>splay\<close> pushed \<open>R\<close>) and stays so, \<open>R\<close> being no son of another
  node and no root of a container. \<^verbatim>\<open>R.updateSubtreeSize()\<close> counts \<open>R\<close> itself as a son, so
  \<^verbatim>\<open>R.subtree_size_\<close> is twice the counter a sentinel would have, which is the one kept here;
  nothing else reads it.
\<close>

datatype 'a leak = Leak (leak_addr: nat) (leak_data: 'a) (leak_tree: "'a SplayTree")

text \<open>
  \<^verbatim>\<open>merge(rhs)\<close> with the receiver itself as argument, \<^verbatim>\<open>t.merge(std::move(t))\<close>: the
  receiver after the call and the nodes leaked. On an empty receiver \<^verbatim>\<open>swap\<close> exchanges the
  root pointer with itself and recomputes the sentinel's counter. Otherwise
  \<^verbatim>\<open>rhs.dummy_.son_[0]\<close> is the receiver's own root pointer: \<^verbatim>\<open>link\<close> moves it into
  \<^verbatim>\<open>son_[1]\<close> of the root (what was there is destroyed), so the root owns itself, and the
  sentinel is left with a null son and the same counter.
\<close>

definition merge_self ::
  "'a SplayTree \<Rightarrow> ('a SplayTree \<times> 'a leak option, 'a SplayTree) outcome" where
  "merge_self this =
     (if tree_empty this then Return (fst (swap this this), None)
      else case findNode (tree_size this - 1) this of
             Throw e t \<Rightarrow> Throw e t
           | UB b \<Rightarrow> UB b
           | Return p \<Rightarrow>
               (case splay (At p) of
                  Throw e t \<Rightarrow> Throw e t
                | UB b \<Rightarrow> UB b
                | Return c \<Rightarrow>
                    (case dummy_son (close c) of
                       Null \<Rightarrow> UB null_deref
                     | Node a x l r s f \<Rightarrow>
                         Return (\<lparr>dummy_son = Null, dummy_size = dummy_size (close c)\<rparr>,
                                 Some (Leak a x (dummy_link l))))))"

section \<open>reverse\<close>

text \<open>\<^verbatim>\<open>reverseTree()\<close>\<close>

definition reverseTree :: "'a SplayTree \<Rightarrow> 'a SplayTree" where
  "reverseTree t = (if \<not> tree_empty t then t\<lparr>dummy_son := toggle (dummy_son t)\<rparr> else t)"

text \<open>\<^verbatim>\<open>reverse(first, last)\<close>\<close>

definition reverse :: "nat \<Rightarrow> nat \<Rightarrow> 'a SplayTree \<Rightarrow> ('a SplayTree, 'a SplayTree) outcome" where
  "reverse first last' t =
     (if first = 0 \<and> last' = tree_size t then Return (reverseTree t)
      else if first > last' then Throw runtime_error t
      else if last' > tree_size t then Throw out_of_range t
      else case split last' t of
             Throw e t' \<Rightarrow> Throw e t'
           | UB b \<Rightarrow> UB b
           | Return (t1, right) \<Rightarrow>
               (case split first t1 of
                  Throw e t' \<Rightarrow> Throw e t'
                | UB b \<Rightarrow> UB b
                | Return (t2, center) \<Rightarrow>
                    (case merge t2 (reverseTree center) of
                       Throw e t' \<Rightarrow> Throw e t'
                     | UB b \<Rightarrow> UB b
                     | Return (t3, center') \<Rightarrow>
                         (case merge t3 right of
                            Throw e t' \<Rightarrow> Throw e t'
                          | UB b \<Rightarrow> UB b
                          | Return (t4, right') \<Rightarrow> Return t4))))"

section \<open>insert\<close>

text \<open>\<^verbatim>\<open>while (p->son_[1]) { p = p->son_[1].get(); }\<close>: no \<^verbatim>\<open>push()\<close> here.\<close>

function rightmost :: "'a cursor \<Rightarrow> 'a cursor" where
  "rightmost p =
     (case focus p of
        Null \<Rightarrow> p
      | Node a x l r s f \<Rightarrow>
          (case r of
             Null \<Rightarrow> p
           | Node a' x' l' r' s' f' \<Rightarrow> rightmost (down True p)))"
  by pat_completeness auto
termination
  by (relation "measure (\<lambda>p. size (focus p))")
     (auto, case_tac p, auto)

text \<open>\<^verbatim>\<open>p->link(son, dir)\<close> for the node the cursor is on.\<close>

fun link_focus :: "'a tree \<Rightarrow> bool \<Rightarrow> 'a cursor \<Rightarrow> 'a cursor" where
  "link_focus son dir (Cursor t path ds) = Cursor (link son dir t) path ds"

text \<open>
  \<^verbatim>\<open>insert(it, e)\<close> for the resolved iterator; \<open>n\<close> is the address at which
  \<^verbatim>\<open>make_unique\<close> allocates the node. The cursor returned is on the new node.
\<close>

fun attach_new :: "nat \<Rightarrow> 'a \<Rightarrow> 'a node_ref \<Rightarrow> ('a cursor, 'a SplayTree) outcome" where
  "attach_new n e (Dummy t) =
     (case dummy_son t of
        Null \<Rightarrow> Return (root (dummy_link (new_node n e)))
      | Node a x l r s f \<Rightarrow>
          Return (down True (link_focus (new_node n e) True (rightmost (root t)))))"
| "attach_new n e (At c) =
     (case focus c of
        Null \<Rightarrow> UB null_deref
      | Node a x l r s f \<Rightarrow>
          (case l of
             Null \<Rightarrow> Return (down False (link_focus (new_node n e) False c))
           | Node a' x' l' r' s' f' \<Rightarrow>
               Return (down True (link_focus (new_node n e) True (rightmost (down False c))))))"

definition insert_ref ::
  "nat \<Rightarrow> 'a node_ref \<Rightarrow> 'a \<Rightarrow> (iterator \<times> 'a SplayTree, 'a SplayTree) outcome" where
  "insert_ref n it e =
     (case attach_new n e it of
        Throw ex t \<Rightarrow> Throw ex t
      | UB b \<Rightarrow> UB b
      | Return new \<Rightarrow>
          (case splay (At new) of
             Throw ex t \<Rightarrow> Throw ex t
           | UB b \<Rightarrow> UB b
           | Return c \<Rightarrow> Return (It n, close c)))"

text \<open>\<^verbatim>\<open>insert(it, e)\<close>\<close>

definition insert_it ::
  "nat \<Rightarrow> iterator \<Rightarrow> 'a \<Rightarrow> 'a SplayTree \<Rightarrow> (iterator \<times> 'a SplayTree, 'a SplayTree) outcome" where
  "insert_it n it e t =
     (case resolve it t of
        None \<Rightarrow> UB foreign_iterator
      | Some r \<Rightarrow> insert_ref n r e)"

section \<open>Iterators and the objects of a program\<close>

text \<open>
  An iterator stores a \<^verbatim>\<open>Node*\<close> and nothing that names a container, and the code that
  receives one follows the pointer to wherever the node is at that moment. That need not be
  the receiver: in \<^verbatim>\<open>erase(first, last)\<close>, after \<^verbatim>\<open>auto right = split(last)\<close> the node of
  \<open>first\<close> is in the local \<open>right\<close> whenever \<open>first\<close> is not before \<open>last\<close>. So the calls that
  take an iterator are functions of all the objects alive: the containers, listed by
  position, and the leaks. A pointer is the sentinel of the container at a position, or the
  address of a node; a node is in the first container or leak that has its address (a live
  node has one address). An address that none has is a dangling pointer: the node was
  destroyed.
\<close>

datatype node_ptr = Sentinel_of nat | Node_at nat

record 'a program =
  containers :: "'a SplayTree list"
  leaks :: "'a leak list"

definition no_objects :: "'a program" where
  "no_objects = \<lparr>containers = [], leaks = []\<rparr>"

text \<open>Where a node is: in the container, or below the leaked root, at a position.\<close>

datatype place = In_container nat | In_leak nat

fun resolve_from :: "nat \<Rightarrow> nat \<Rightarrow> 'a SplayTree list \<Rightarrow> (nat \<times> 'a node_ref) option" where
  "resolve_from j n [] = None"
| "resolve_from j n (t # ts) =
     (case resolve (It n) t of
        Some r \<Rightarrow> Some (j, r)
      | None \<Rightarrow> resolve_from (Suc j) n ts)"

fun resolve_leak :: "nat \<Rightarrow> nat \<Rightarrow> 'a leak list \<Rightarrow> (nat \<times> 'a node_ref) option" where
  "resolve_leak i n [] = None"
| "resolve_leak i n (l # ls) =
     (if n = leak_addr l then Some (i, Dummy (leak_tree l))
      else case resolve (It n) (leak_tree l) of
             Some r \<Rightarrow> Some (i, r)
           | None \<Rightarrow> resolve_leak (Suc i) n ls)"

fun resolve_in :: "node_ptr \<Rightarrow> 'a program \<Rightarrow> (place \<times> 'a node_ref) option" where
  "resolve_in (Sentinel_of j) p =
     (if j < length (containers p) then Some (In_container j, Dummy (containers p ! j))
      else None)"
| "resolve_in (Node_at n) p =
     (case resolve_from 0 n (containers p) of
        Some (j, r) \<Rightarrow> Some (In_container j, r)
      | None \<Rightarrow>
          (case resolve_leak 0 n (leaks p) of
             Some (i, r) \<Rightarrow> Some (In_leak i, r)
           | None \<Rightarrow> None))"

text \<open>The program after the code has worked at a place, \<open>t\<close> being what is there now.\<close>

fun store :: "place \<Rightarrow> 'a SplayTree \<Rightarrow> 'a program \<Rightarrow> 'a program" where
  "store (In_container j) t p = p\<lparr>containers := (containers p)[j := t]\<rparr>"
| "store (In_leak i) t p =
     p\<lparr>leaks := (leaks p)[i := Leak (leak_addr (leaks p ! i)) (leak_data (leaks p ! i)) t]\<rparr>"

text \<open>\<^verbatim>\<open>iterator(p)\<close> for a node reference at a place.\<close>

fun ptr_of :: "place \<Rightarrow> 'a program \<Rightarrow> 'a node_ref \<Rightarrow> node_ptr option" where
  "ptr_of (In_container j) p (Dummy t) = Some (Sentinel_of j)"
| "ptr_of (In_leak i) p (Dummy t) = Some (Node_at (leak_addr (leaks p ! i)))"
| "ptr_of pl p (At (Cursor Null path ds)) = None"
| "ptr_of pl p (At (Cursor (Node a x l r s f) path ds)) = Some (Node_at a)"

text \<open>
  \<^verbatim>\<open>operator--\<close> at a place. On a leaked root \<open>R\<close> with no \<^verbatim>\<open>son_[0]\<close> it returns with
  the iterator still on \<open>R\<close>: \<^verbatim>\<open>R.whichSon()\<close> is true, \<open>R\<close> being its own \<^verbatim>\<open>son_[1]\<close>, so the
  loop is not entered and \<^verbatim>\<open>node_ = node_->dad_\<close> is \<open>R\<close> again. Everywhere else it is \<open>dec\<close>.
\<close>

fun dec_at :: "place \<Rightarrow> 'a node_ref \<Rightarrow> ('a node_ref, 'a SplayTree) outcome" where
  "dec_at (In_leak i) (Dummy t) =
     (case dummy_son t of
        Null \<Rightarrow> Return (Dummy t)
      | Node a x l r s f \<Rightarrow> Return (At (descend True (push_focus (root t)))))"
| "dec_at pl r =
     (case dec r of
        Return c \<Rightarrow> Return (At c)
      | Throw e t \<Rightarrow> Throw e t
      | UB b \<Rightarrow> UB b)"

text \<open>
  \<^verbatim>\<open>splay(*prev.node_)\<close> in \<^verbatim>\<open>split\<close>, giving what is at the place afterwards. \<open>prev\<close> is a
  node, or a leaked root (see \<open>dec_at\<close>): that is not the receiver's sentinel, and \<^verbatim>\<open>isRoot\<close>
  holds for it, so nothing happens.
\<close>

fun splay_at :: "'a node_ref \<Rightarrow> ('a SplayTree, 'a SplayTree) outcome" where
  "splay_at (Dummy t) = Return t"
| "splay_at (At c) =
     (case splay (At c) of
        Return c' \<Rightarrow> Return (close c')
      | Throw e t \<Rightarrow> Throw e t
      | UB b \<Rightarrow> UB b)"

text \<open>
  \<^verbatim>\<open>operator++\<close> and \<^verbatim>\<open>operator--\<close> on an iterator: the iterator after the call and the
  program, in which the flags on the way have been pushed.
\<close>

definition inc_in ::
  "node_ptr \<Rightarrow> 'a program \<Rightarrow> (node_ptr \<times> 'a program, 'a program) outcome" where
  "inc_in it p =
     (case resolve_in it p of
        None \<Rightarrow> UB foreign_iterator
      | Some (pl, r) \<Rightarrow>
          (case inc r of
             Throw e t \<Rightarrow> Throw e (store pl t p)
           | UB b \<Rightarrow> UB b
           | Return next \<Rightarrow>
               (case ptr_of pl p next of
                  None \<Rightarrow> UB null_deref
                | Some it' \<Rightarrow> Return (it', store pl (close_ref next) p))))"

definition dec_in ::
  "node_ptr \<Rightarrow> 'a program \<Rightarrow> (node_ptr \<times> 'a program, 'a program) outcome" where
  "dec_in it p =
     (case resolve_in it p of
        None \<Rightarrow> UB foreign_iterator
      | Some (pl, r) \<Rightarrow>
          (case dec_at pl r of
             Throw e t \<Rightarrow> Throw e (store pl t p)
           | UB b \<Rightarrow> UB b
           | Return prev \<Rightarrow>
               (case ptr_of pl p prev of
                  None \<Rightarrow> UB null_deref
                | Some it' \<Rightarrow> Return (it', store pl (close_ref prev) p))))"

text \<open>
  \<^verbatim>\<open>split(const_iterator it)\<close> called on the container \<open>k\<close>, the node of \<open>it\<close> being at
  the place \<open>pl\<close>. \<^verbatim>\<open>--prev\<close> pushes flags there. When it throws, the receiver is moved out
  whole. Otherwise \<^verbatim>\<open>splay(*prev.node_)\<close> rotates at \<open>pl\<close> (\<open>prev\<close> is not the receiver's
  sentinel, and past that test \<^verbatim>\<open>splay\<close> and \<^verbatim>\<open>rotate\<close> follow \<^verbatim>\<open>dad_\<close> pointers and never
  read the receiver), and then \<^verbatim>\<open>root()\<close> is the root of the receiver, whose right subtree
  is cut off. With \<open>pl\<close> the receiver this is \<open>split_ref\<close>. The result is the program
  after the call and the container returned.
\<close>

definition split_in ::
  "nat \<Rightarrow> node_ptr \<Rightarrow> 'a program \<Rightarrow> ('a program \<times> 'a SplayTree, 'a program) outcome" where
  "split_in k it p =
     (case resolve_in it p of
        None \<Rightarrow> UB foreign_iterator
      | Some (pl, r) \<Rightarrow>
          (case dec_at pl r of
             Throw runtime_error t \<Rightarrow>
               (let p' = store pl t p;
                    (result, this) = swap empty_tree (containers p' ! k)
                in Return (store (In_container k) this p', result))
           | Throw out_of_range t \<Rightarrow> Throw out_of_range (store pl t p)
           | UB b \<Rightarrow> UB b
           | Return prev \<Rightarrow>
               (case splay_at prev of
                  Throw e t \<Rightarrow> Throw e (store pl t p)
                | UB b \<Rightarrow> UB b
                | Return t \<Rightarrow>
                    (let p' = store pl t p
                     in case dummy_son (containers p' ! k) of
                          Null \<Rightarrow> UB null_deref
                        | Node a x l r s f \<Rightarrow>
                            Return (store (In_container k)
                                      \<lparr>dummy_son = updateSubtreeSize (Node a x l Null s f),
                                       dummy_size = dummy_size (containers p' ! k)\<rparr> p',
                                    dummy_link r)))))"

text \<open>
  \<^verbatim>\<open>insert(it, e)\<close>: the node is linked below the node of \<open>it\<close> and splayed where that node
  is. The receiver is not read (\<^verbatim>\<open>splay\<close> compares its argument, the new node, with the
  receiver's sentinel).
\<close>

definition insert_in ::
  "nat \<Rightarrow> node_ptr \<Rightarrow> 'a \<Rightarrow> 'a program \<Rightarrow> (node_ptr \<times> 'a program, 'a program) outcome" where
  "insert_in n it e p =
     (case resolve_in it p of
        None \<Rightarrow> UB foreign_iterator
      | Some (pl, r) \<Rightarrow>
          (case insert_ref n r e of
             Throw ex t \<Rightarrow> Throw ex (store pl t p)
           | UB b \<Rightarrow> UB b
           | Return (new, t) \<Rightarrow> Return (Node_at n, store pl t p)))"

section \<open>erase\<close>

text \<open>
  A container that is created takes the next position. A local container of a member
  function is the newest one while the function runs, and is destroyed on the way out.
\<close>

definition add_container :: "'a SplayTree \<Rightarrow> 'a program \<Rightarrow> 'a program" where
  "add_container t p = p\<lparr>containers := containers p @ [t]\<rparr>"

definition newest :: "'a program \<Rightarrow> 'a SplayTree" where
  "newest p = last (containers p)"

definition drop_newest :: "'a program \<Rightarrow> 'a program" where
  "drop_newest p = p\<lparr>containers := butlast (containers p)\<rparr>"

text \<open>
  \<^verbatim>\<open>erase(first, last)\<close> called on the container \<open>k\<close>. The local \<open>right\<close> is a container of
  its own from \<^verbatim>\<open>auto right = split(last)\<close> until the function returns, so that
  \<^verbatim>\<open>split(first)\<close> finds the nodes that went to it; when it is destroyed it is empty,
  \<^verbatim>\<open>merge\<close> having moved its nodes out. What \<^verbatim>\<open>split(first)\<close> returns is a temporary,
  destroyed with its nodes. \<open>first\<close> has to point to an object of the caller.
\<close>

definition erase_range_in ::
  "nat \<Rightarrow> node_ptr \<Rightarrow> node_ptr \<Rightarrow> 'a program \<Rightarrow>
   (node_ptr \<times> 'a program, 'a program) outcome" where
  "erase_range_in k first last' p =
     (case resolve_in first p of
        None \<Rightarrow> UB foreign_iterator
      | Some found \<Rightarrow>
          (case split_in k last' p of
             Throw e p' \<Rightarrow> Throw e p'
           | UB b \<Rightarrow> UB b
           | Return (p1, right) \<Rightarrow>
               (case split_in k first (add_container right p1) of
                  Throw e p' \<Rightarrow> Throw e (drop_newest p')
                | UB b \<Rightarrow> UB b
                | Return (p2, erased) \<Rightarrow>
                    (case merge (containers p2 ! k) (newest p2) of
                       Throw e t' \<Rightarrow> Throw e (store (In_container k) t' (drop_newest p2))
                     | UB b \<Rightarrow> UB b
                     | Return (t3, right') \<Rightarrow>
                         (let p3 = store (In_container k) t3 (drop_newest p2)
                          in case dummy_son t3 of
                               Null \<Rightarrow> Return (Sentinel_of k, p3)
                             | Node a x l r s f \<Rightarrow>
                                 (case r of
                                    Null \<Rightarrow> Return (Sentinel_of k, p3)
                                  | Node a' x' l' r' s' f' \<Rightarrow> Return (Node_at a', p3)))))))"

text \<open>\<^verbatim>\<open>erase(pos)\<close>: \<^verbatim>\<open>const auto copy = pos; return erase(copy, ++pos);\<close>\<close>

definition erase_in ::
  "nat \<Rightarrow> node_ptr \<Rightarrow> 'a program \<Rightarrow> (node_ptr \<times> 'a program, 'a program) outcome" where
  "erase_in k pos p =
     (case inc_in pos p of
        Throw e p' \<Rightarrow> Throw e p'
      | UB b \<Rightarrow> UB b
      | Return (next, p') \<Rightarrow> erase_range_in k pos next p')"

text \<open>
  The two calls in a program whose only object is the receiver, with the iterators of the
  single-container calls above: \<open>End\<close> is the receiver's \<^verbatim>\<open>end()\<close>.
\<close>

fun own :: "iterator \<Rightarrow> node_ptr" where
  "own End = Sentinel_of 0"
| "own (It n) = Node_at n"

fun iterator_at :: "node_ptr \<Rightarrow> iterator" where
  "iterator_at (Sentinel_of j) = End"
| "iterator_at (Node_at n) = It n"

definition only :: "'a SplayTree \<Rightarrow> 'a program" where
  "only t = \<lparr>containers = [t], leaks = []\<rparr>"

fun alone :: "(node_ptr \<times> 'a program, 'a program) outcome \<Rightarrow>
    (iterator \<times> 'a SplayTree, 'a SplayTree) outcome" where
  "alone (Return (it, p)) = Return (iterator_at it, containers p ! 0)"
| "alone (Throw e p) = Throw e (containers p ! 0)"
| "alone (UB b) = UB b"

definition erase_range ::
  "iterator \<Rightarrow> iterator \<Rightarrow> 'a SplayTree \<Rightarrow> (iterator \<times> 'a SplayTree, 'a SplayTree) outcome" where
  "erase_range first last' t = alone (erase_range_in 0 (own first) (own last') (only t))"

definition erase :: "iterator \<Rightarrow> 'a SplayTree \<Rightarrow> (iterator \<times> 'a SplayTree, 'a SplayTree) outcome" where
  "erase pos t = alone (erase_in 0 (own pos) (only t))"

section \<open>Construction from a range\<close>

text \<open>
  \<^verbatim>\<open>buildTree(begin, end)\<close>. Each element of the range comes with the address at which
  \<^verbatim>\<open>make_unique\<close> allocates its node.
\<close>

function buildTree :: "(nat \<times> 'a) list \<Rightarrow> 'a tree" where
  "buildTree xs =
     (let dist = length xs
      in if dist = 0 then Null
         else if dist = 1 then new_node (fst (xs ! 0)) (snd (xs ! 0))
         else let mid = dist div 2;
                  result = new_node (fst (xs ! mid)) (snd (xs ! mid));
                  result = link (buildTree (take mid xs)) False result;
                  result = link (buildTree (drop (Suc mid) xs)) True result
              in result)"
  by pat_completeness auto
termination
  by (relation "measure length") auto

text \<open>\<^verbatim>\<open>SplayTree(begin, end)\<close>\<close>

definition SplayTree_from :: "(nat \<times> 'a) list \<Rightarrow> 'a SplayTree" where
  "SplayTree_from xs = dummy_link (buildTree xs)"

text \<open>The range \<open>xs\<close> with its nodes allocated at the addresses \<open>0, 1, ...\<close> in range order.\<close>

definition of_list :: "'a list \<Rightarrow> 'a SplayTree" where
  "of_list xs = SplayTree_from (zip [0 ..< length xs] xs)"

section \<open>The logical sequence\<close>

text \<open>
  The sequence a container holds: the in-order traversal of the nodes below the sentinel, a
  set \<^verbatim>\<open>reverse_\<close> flag reversing the whole subtree of its node.
\<close>

fun seq :: "'a tree \<Rightarrow> 'a list" where
  "seq Null = []"
| "seq (Node a x l r s f) =
     (if f then rev (seq l @ x # seq r) else seq l @ x # seq r)"

definition contents :: "'a SplayTree \<Rightarrow> 'a list" where
  "contents t = seq (dummy_son t)"

section \<open>Invariants\<close>

text \<open>
  The size invariant: every node's \<^verbatim>\<open>subtree_size_\<close> is one more than the counters of its
  sons, an absent son counting 0.
\<close>

fun sizes_ok :: "'a tree \<Rightarrow> bool" where
  "sizes_ok Null = True"
| "sizes_ok (Node a x l r s f) = (s = 1 + ssize l + ssize r \<and> sizes_ok l \<and> sizes_ok r)"

text \<open>No node has its \<^verbatim>\<open>reverse_\<close> flag set.\<close>

fun no_flags :: "'a tree \<Rightarrow> bool" where
  "no_flags Null = True"
| "no_flags (Node a x l r s f) = (\<not> f \<and> no_flags l \<and> no_flags r)"

text \<open>
  The sequence of a node seen from a son, given the sequence \<open>xs\<close> of that son, and the
  sequence of a container given the sequence at a cursor.
\<close>

fun wrap :: "'a frame \<Rightarrow> 'a list \<Rightarrow> 'a list" where
  "wrap (Frame d a x other s f) xs =
     (let ys = (if d then seq other @ x # xs else xs @ x # seq other)
      in if f then rev ys else ys)"

fun wraps :: "'a frame list \<Rightarrow> 'a list \<Rightarrow> 'a list" where
  "wraps [] xs = xs"
| "wraps (v # path) xs = wraps path (wrap v xs)"

text \<open>
  The state in the middle of \<^verbatim>\<open>insert\<close>: the subtree at the cursor and the subtrees hanging
  off the path above it satisfy the size invariant, while the counters of the nodes on the
  path may be stale.
\<close>

fun others_ok :: "'a frame list \<Rightarrow> bool" where
  "others_ok [] = True"
| "others_ok (v # path) = (sizes_ok (fother v) \<and> others_ok path)"

definition near_ok :: "'a cursor \<Rightarrow> bool" where
  "near_ok c = (sizes_ok (focus c) \<and> others_ok (dads c))"

section \<open>Runs of calls\<close>

text \<open>A run of \<^verbatim>\<open>at\<close> calls on one container, collecting the values returned.\<close>

fun at_all :: "nat list \<Rightarrow> 'a SplayTree \<Rightarrow> ('a list \<times> 'a SplayTree, 'a SplayTree) outcome" where
  "at_all [] t = Return ([], t)"
| "at_all (i # is) t =
     (case at i t of
        Return (x, t') \<Rightarrow>
          (case at_all is t' of
             Return (xs, t'') \<Rightarrow> Return (x # xs, t'')
           | Throw e t'' \<Rightarrow> Throw e t''
           | UB b \<Rightarrow> UB b)
      | Throw e t' \<Rightarrow> Throw e t'
      | UB b \<Rightarrow> UB b)"

text \<open>\<^verbatim>\<open>R = T.split(i); T.merge(std::move(R));\<close> The pair is (\<open>T\<close>, \<open>R\<close>) after both calls.\<close>

definition split_then_merge ::
  "nat \<Rightarrow> 'a SplayTree \<Rightarrow> ('a SplayTree \<times> 'a SplayTree, 'a SplayTree) outcome" where
  "split_then_merge i t =
     (case split i t of
        Return (t', r) \<Rightarrow> merge t' r
      | Throw e t' \<Rightarrow> Throw e t'
      | UB b \<Rightarrow> UB b)"

text \<open>
  An outcome that keeps the size invariant: the result satisfies \<open>P\<close>, or the container at
  the throw satisfies the invariant.
\<close>

fun outcome_ok :: "('r \<Rightarrow> bool) \<Rightarrow> ('r, 'a SplayTree) outcome \<Rightarrow> bool" where
  "outcome_ok P (Return r) = P r"
| "outcome_ok P (Throw e t) = sizes_ok (dummy_son t)"
| "outcome_ok P (UB b) = True"

text \<open>Every container of the list satisfies the size invariant.\<close>

definition all_ok :: "'a SplayTree list \<Rightarrow> bool" where
  "all_ok ts = (\<forall>t \<in> set ts. sizes_ok (dummy_son t))"

text \<open>
  An outcome of a call on a program that keeps the size invariant: the result satisfies
  \<open>P\<close>, or the containers at the throw are the \<open>n\<close> containers of the caller and all satisfy
  the invariant.
\<close>

fun outcomes_ok :: "nat \<Rightarrow> ('r \<Rightarrow> bool) \<Rightarrow> ('r, 'a program) outcome \<Rightarrow> bool" where
  "outcomes_ok n P (Return r) = P r"
| "outcomes_ok n P (Throw e p) = (all_ok (containers p) \<and> length (containers p) = n)"
| "outcomes_ok n P (UB b) = True"

text \<open>
  What the invariant asks of the tree \<open>t\<close> at a place: the size invariant in a container,
  nothing below a leaked root. And an outcome of the code working at a place that keeps it.
\<close>

fun fits :: "place \<Rightarrow> 'a SplayTree \<Rightarrow> bool" where
  "fits (In_container j) t = sizes_ok (dummy_son t)"
| "fits (In_leak i) t = True"

fun outcome_fits :: "place \<Rightarrow> ('r \<Rightarrow> bool) \<Rightarrow> ('r, 'a SplayTree) outcome \<Rightarrow> bool" where
  "outcome_fits pl P (Return r) = P r"
| "outcome_fits pl P (Throw e t) = fits pl t"
| "outcome_fits pl P (UB b) = True"

text \<open>A node reference at a place that \<^verbatim>\<open>splay\<close> can take.\<close>

fun splayable :: "place \<Rightarrow> 'a node_ref \<Rightarrow> bool" where
  "splayable (In_container j) (At c) = (focus c \<noteq> Null \<and> sizes_ok (dummy_son (close c)))"
| "splayable (In_container j) (Dummy t) = False"
| "splayable (In_leak i) r = True"

text \<open>
  A program of public calls, each naming its containers by their position in the list of
  the containers created so far. A constructor and \<^verbatim>\<open>split\<close> add a container at the end of
  the list. An iterator argument is any pointer: into the receiver, into another container
  or to a leaked node.
\<close>

datatype 'a call =
  Construct_empty
  | Construct "(nat \<times> 'a) list"
  | Call_at nat nat
  | Call_at_const nat nat
  | Call_insert nat nat node_ptr 'a
  | Call_erase nat node_ptr
  | Call_erase_range nat node_ptr node_ptr
  | Call_split nat nat
  | Call_split_it nat node_ptr
  | Call_merge nat nat
  | Call_reverse nat nat nat
  | Call_swap nat nat
  | Call_begin nat
  | Call_inc node_ptr
  | Call_dec node_ptr

text \<open>
  The containers after a call on the container \<open>k\<close>. An exception leaves the containers as
  they were at the throw and the caller goes on; after undefined behaviour there is no state.
\<close>

fun after_call :: "nat \<Rightarrow> 'a SplayTree list \<Rightarrow> ('r \<times> 'a SplayTree, 'a SplayTree) outcome \<Rightarrow>
    'a SplayTree list option" where
  "after_call k ts (Return (x, t)) = Some (ts[k := t])"
| "after_call k ts (Throw e t) = Some (ts[k := t])"
| "after_call k ts (UB b) = None"

fun after_split :: "nat \<Rightarrow> 'a SplayTree list \<Rightarrow> ('a SplayTree \<times> 'a SplayTree, 'a SplayTree) outcome \<Rightarrow>
    'a SplayTree list option" where
  "after_split k ts (Return (t, new)) = Some (ts[k := t] @ [new])"
| "after_split k ts (Throw e t) = Some (ts[k := t])"
| "after_split k ts (UB b) = None"

fun after_merge :: "nat \<Rightarrow> nat \<Rightarrow> 'a SplayTree list \<Rightarrow>
    ('a SplayTree \<times> 'a SplayTree, 'a SplayTree) outcome \<Rightarrow> 'a SplayTree list option" where
  "after_merge k j ts (Return (t, rhs)) = Some (ts[k := t, j := rhs])"
| "after_merge k j ts (Throw e t) = Some (ts[k := t])"
| "after_merge k j ts (UB b) = None"

fun after_reverse :: "nat \<Rightarrow> 'a SplayTree list \<Rightarrow> ('a SplayTree, 'a SplayTree) outcome \<Rightarrow>
    'a SplayTree list option" where
  "after_reverse k ts (Return t) = Some (ts[k := t])"
| "after_reverse k ts (Throw e t) = Some (ts[k := t])"
| "after_reverse k ts (UB b) = None"

text \<open>The program with the containers a call has left.\<close>

fun with_containers :: "'a program \<Rightarrow> 'a SplayTree list option \<Rightarrow> 'a program option" where
  "with_containers p None = None"
| "with_containers p (Some ts) = Some (p\<lparr>containers := ts\<rparr>)"

text \<open>The program after \<^verbatim>\<open>merge\<close> of the container \<open>k\<close> with itself.\<close>

fun after_merge_self ::
  "nat \<Rightarrow> 'a program \<Rightarrow> ('a SplayTree \<times> 'a leak option, 'a SplayTree) outcome \<Rightarrow>
   'a program option" where
  "after_merge_self k p (Return (t, None)) = Some (store (In_container k) t p)"
| "after_merge_self k p (Return (t, Some l)) =
     Some ((store (In_container k) t p)\<lparr>leaks := leaks p @ [l]\<rparr>)"
| "after_merge_self k p (Throw e t) = Some (store (In_container k) t p)"
| "after_merge_self k p (UB b) = None"

text \<open>The same for the calls that take an iterator, which give the whole program.\<close>

fun after_iterator_call :: "('r \<times> 'a program, 'a program) outcome \<Rightarrow> 'a program option" where
  "after_iterator_call (Return (x, p)) = Some p"
| "after_iterator_call (Throw e p) = Some p"
| "after_iterator_call (UB b) = None"

fun after_split_in :: "('a program \<times> 'a SplayTree, 'a program) outcome \<Rightarrow> 'a program option" where
  "after_split_in (Return (p, new)) = Some (add_container new p)"
| "after_split_in (Throw e p) = Some p"
| "after_split_in (UB b) = None"

text \<open>
  One call. A call on a container that does not exist is no call. \<^verbatim>\<open>merge\<close> of a container
  with itself is \<open>merge_self\<close>.
\<close>

fun exec :: "'a call \<Rightarrow> 'a program \<Rightarrow> 'a program option" where
  "exec Construct_empty p = Some (add_container empty_tree p)"
| "exec (Construct xs) p = Some (add_container (SplayTree_from xs) p)"
| "exec (Call_at k i) p =
     (if k < length (containers p)
      then with_containers p (after_call k (containers p) (at i (containers p ! k)))
      else None)"
| "exec (Call_at_const k i) p =
     (if k < length (containers p)
      then with_containers p (after_call k (containers p) (at_const i (containers p ! k)))
      else None)"
| "exec (Call_insert k n it e) p =
     (if k < length (containers p) then after_iterator_call (insert_in n it e p) else None)"
| "exec (Call_erase k pos) p =
     (if k < length (containers p) then after_iterator_call (erase_in k pos p) else None)"
| "exec (Call_erase_range k first last') p =
     (if k < length (containers p)
      then after_iterator_call (erase_range_in k first last' p) else None)"
| "exec (Call_split k i) p =
     (if k < length (containers p)
      then with_containers p (after_split k (containers p) (split i (containers p ! k)))
      else None)"
| "exec (Call_split_it k it) p =
     (if k < length (containers p) then after_split_in (split_in k it p) else None)"
| "exec (Call_merge k j) p =
     (if k < length (containers p) \<and> j < length (containers p) then
        (if k = j then after_merge_self k p (merge_self (containers p ! k))
         else with_containers p
                (after_merge k j (containers p) (merge (containers p ! k) (containers p ! j))))
      else None)"
| "exec (Call_reverse k first last') p =
     (if k < length (containers p)
      then with_containers p
             (after_reverse k (containers p) (reverse first last' (containers p ! k)))
      else None)"
| "exec (Call_swap k j) p =
     (if k < length (containers p) \<and> j < length (containers p)
      then (let (t, rhs) = swap (containers p ! k) (containers p ! j)
            in Some (p\<lparr>containers := (containers p)[k := t, j := rhs]\<rparr>))
      else None)"
| "exec (Call_begin k) p =
     (if k < length (containers p)
      then with_containers p (after_call k (containers p) (begin_it (containers p ! k)))
      else None)"
| "exec (Call_inc it) p = after_iterator_call (inc_in it p)"
| "exec (Call_dec it) p = after_iterator_call (dec_in it p)"

fun run :: "'a call list \<Rightarrow> 'a program \<Rightarrow> 'a program option" where
  "run [] p = Some p"
| "run (c # cs) p = (case exec c p of None \<Rightarrow> None | Some p' \<Rightarrow> run cs p')"

text \<open>
  A run of calls that creates seven containers and uses every kind of call, among them
  \<^verbatim>\<open>erase(it, it)\<close>, a \<^verbatim>\<open>split\<close> and an \<^verbatim>\<open>insert\<close> at an iterator into another container,
  a \<^verbatim>\<open>merge\<close> of a container with itself and calls at iterators to the nodes it leaked.
\<close>

definition example_calls :: "nat call list" where
  "example_calls =
    [Construct (zip [0 ..< 5] [1, 2, 3, 4, 5]), Call_reverse 0 1 4, Call_split 0 2,
     Call_merge 1 0, Call_at 1 0, Call_insert 1 10 (Node_at 2) 99, Call_begin 1,
     Call_inc (Node_at 2), Call_erase 1 (Node_at 4), Call_at 1 7, Call_swap 0 1,
     Call_dec (Sentinel_of 0), Call_split_it 0 (Node_at 10),
     Call_erase_range 2 (Node_at 3) (Sentinel_of 2), Construct_empty, Call_merge 3 0,
     Call_at_const 3 1, Call_erase_range 2 (Node_at 1) (Node_at 1),
     Construct (zip [20 ..< 24] [6, 7, 8, 9]), Call_split_it 2 (Node_at 22),
     Call_insert 0 30 (Node_at 21) 50, Call_erase_range 4 (Node_at 23) (Node_at 22),
     Call_merge 5 5, Call_merge 2 2, Call_insert 2 40 (Node_at 0) 60, Call_dec (Node_at 0),
     Call_split_it 4 (Node_at 1), Call_erase 6 (Node_at 40)]"

section \<open>Addresses\<close>

text \<open>
  The addresses of the nodes of a subtree, and of the nodes that are above a cursor or hang
  off the path above it. Nodes that exist at the same time have different addresses.
\<close>

fun addrs :: "'a tree \<Rightarrow> nat set" where
  "addrs Null = {}"
| "addrs (Node a x l r s f) = {a} \<union> addrs l \<union> addrs r"

text \<open>The addresses above and beside a cursor.\<close>

fun frame_addrs :: "'a frame list \<Rightarrow> nat set" where
  "frame_addrs [] = {}"
| "frame_addrs (v # path) = {faddr v} \<union> addrs (fother v) \<union> frame_addrs path"

section \<open>Places in the sequence\<close>

text \<open>
  The place of a node in the logical sequence: the elements before and after the node's own
  element, first inside the node's subtree, then seen from a father, then in the container.
\<close>

fun own_place :: "'a tree \<Rightarrow> 'a list \<times> 'a list" where
  "own_place Null = ([], [])"
| "own_place (Node a x l r s f) = (if f then (rev (seq r), rev (seq l)) else (seq l, seq r))"

fun lift_place :: "'a frame \<Rightarrow> 'a list \<times> 'a list \<Rightarrow> 'a list \<times> 'a list" where
  "lift_place (Frame d a x other s f) (pre, post) =
     (let (pre', post') = (if d then (seq other @ x # pre, post) else (pre, post @ x # seq other))
      in if f then (rev post', rev pre') else (pre', post'))"

fun lift_places :: "'a frame list \<Rightarrow> 'a list \<times> 'a list \<Rightarrow> 'a list \<times> 'a list" where
  "lift_places [] pp = pp"
| "lift_places (v # path) pp = lift_places path (lift_place v pp)"

definition place :: "'a cursor \<Rightarrow> 'a list \<times> 'a list" where
  "place c = lift_places (dads c) (own_place (focus c))"

text \<open>No frame of the path has its flag set.\<close>

fun clean :: "'a frame list \<Rightarrow> bool" where
  "clean [] = True"
| "clean (v # path) = (\<not> frev v \<and> clean path)"

text \<open>What is before and after the whole subtree at a cursor.\<close>

definition around :: "'a frame list \<Rightarrow> 'a list \<times> 'a list" where
  "around path = lift_places path ([], [])"

section \<open>Recursive equations are unfolded by hand\<close>

declare findNode_loop.simps [simp del] splay_loop.simps [simp del] descend.simps [simp del]
  rightmost.simps [simp del] buildTree.simps [simp del]

section \<open>Sequences and sizes under the primitives\<close>

lemma seq_toggle [simp]: "seq (toggle t) = rev (seq t)"
  by (cases t) auto

lemma seq_push [simp]: "seq (push t) = seq t"
  by (cases t) auto

lemma seq_updateSubtreeSize [simp]: "seq (updateSubtreeSize t) = seq t"
  by (cases t) auto

lemma seq_attach: "seq (attach v t) = wrap v (seq t)"
  by (cases v) (auto simp: Let_def)

lemma seq_plug: "seq (plug t path) = wraps path (seq t)"
  by (induction path arbitrary: t) (auto simp: seq_attach)

lemma contents_close: "contents (close c) = wraps (dads c) (seq (focus c))"
  by (cases c) (simp add: contents_def seq_plug)

lemma wraps_update_above:
  "update_above u path ds = (path', ds') \<Longrightarrow> wraps path' xs = wraps path xs"
  by (induction u path ds rule: update_above.induct) (auto simp: Let_def)

lemma rotate_node_contents:
  assumes "rotate_node c = Return c'"
    and "focus c = Node a x l r s False"
    and "\<not> frev (hd (dads c))"
  shows "contents (close c') = contents (close c)"
proof -
  obtain u path ds where c: "c = Cursor u path ds" by (cases c)
  with assms obtain v rest where path: "path = v # rest" by (cases path) auto
  obtain dir va vx vother vs where v: "v = Frame dir va vx vother vs False"
    using assms c path by (cases v) auto
  obtain path' ds' where ua: "update_above (focus c') rest ds = (path', ds')"
    by (cases "update_above (focus c') rest ds")
  show ?thesis
    using assms c path v 
    by (auto simp: contents_def seq_plug Let_def wraps_update_above split: prod.splits)
qed

lemma splay_step_contents:
  assumes "splay_step c = Return c'" and "focus c \<noteq> Null"
  shows "contents (close c') = contents (close c)"
proof (cases c rule: splay_step.cases)
  case (1 u ds)
  with assms show ?thesis by auto
next
  case (2 u v ds)
  with assms show ?thesis
    by (cases u; cases v)
       (auto simp: contents_def seq_plug Let_def split: prod.splits if_splits)
next
  case (3 u v w path ds)
  with assms show ?thesis
    by (cases u; cases v; cases w)
       (auto simp: contents_def seq_plug Let_def wraps_update_above split: prod.splits if_splits)
qed

lemma ssize_toggle [simp]: "ssize (toggle t) = ssize t"
  by (cases t) auto

lemma sizes_ok_toggle [simp]: "sizes_ok (toggle t) = sizes_ok t"
  by (cases t) auto

lemma ssize_push [simp]: "ssize (push t) = ssize t"
  by (cases t) auto

lemma sizes_ok_push [simp]: "sizes_ok (push t) = sizes_ok t"
  by (cases t) auto

lemma sizes_ok_attach_D: "sizes_ok (attach v t) \<Longrightarrow> sizes_ok t \<and> sizes_ok (fother v)"
  by (cases v) (auto split: if_splits)

lemma sizes_ok_plug_D: "sizes_ok (plug t path) \<Longrightarrow> sizes_ok t \<and> others_ok path"
  by (induction path arbitrary: t) (auto dest: sizes_ok_attach_D)

lemma others_ok_update_above:
  "update_above u path ds = (path', ds') \<Longrightarrow> others_ok path' = others_ok path"
  by (induction u path ds rule: update_above.induct) auto

lemma splay_step_returns:
  assumes "focus c \<noteq> Null"
  shows "\<exists>c'. splay_step c = Return c' \<and> focus c' \<noteq> Null \<and>
           addr (focus c') = addr (focus c) \<and> data (focus c') = data (focus c)"
proof (cases c rule: splay_step.cases)
  case (1 u ds)
  with assms show ?thesis by auto
next
  case (2 u v ds)
  with assms show ?thesis
    by (cases u; cases v) (auto simp: Let_def split: prod.splits if_splits)
next
  case (3 u v w path ds)
  with assms show ?thesis
    by (cases u; cases v; cases w)
       (auto simp: Let_def split: prod.splits if_splits)
qed

lemma splay_step_near_ok:
  assumes "splay_step c = Return c'" and "focus c \<noteq> Null" and "near_ok c"
  shows "near_ok c'"
proof (cases c rule: splay_step.cases)
  case (1 u ds)
  with assms show ?thesis by auto
next
  case (2 u v ds)
  with assms show ?thesis
    by (cases u; cases v) (auto simp: near_ok_def Let_def split: prod.splits if_splits)
next
  case (3 u v w path ds)
  with assms show ?thesis
    by (cases u; cases v; cases w)
       (auto simp: near_ok_def Let_def others_ok_update_above split: prod.splits if_splits)
qed

lemma splay_loop_correct:
  assumes "focus c \<noteq> Null"
  shows "\<exists>c'. splay_loop c = Return c' \<and> dads c' = [] \<and> focus c' \<noteq> Null \<and>
           addr (focus c') = addr (focus c) \<and> data (focus c') = data (focus c) \<and>
           contents (close c') = contents (close c) \<and>
           (near_ok c \<longrightarrow> sizes_ok (focus c'))"
  using assms
proof (induction c rule: splay_loop.induct)
  case (1 u)
  show ?case
  proof (cases "dads u")
    case Nil
    then have "splay_loop u = Return u"
      by (subst splay_loop.simps) simp
    with Nil show ?thesis using 1(2) by (simp add: near_ok_def)
  next
    case (Cons v path)
    obtain u' where step: "splay_step u = Return u'" and nn: "focus u' \<noteq> Null"
      and same: "addr (focus u') = addr (focus u)" "data (focus u') = data (focus u)"
      using splay_step_returns [OF 1(2)] by blast
    from 1(1) [OF Cons step nn] obtain c' where
      c': "splay_loop u' = Return c'" "dads c' = []" "focus c' \<noteq> Null"
        "addr (focus c') = addr (focus u')" "data (focus c') = data (focus u')"
        "contents (close c') = contents (close u')"
        "near_ok u' \<longrightarrow> sizes_ok (focus c')"
      by blast
    have "splay_loop u = Return c'"
      using Cons step c'(1) by (subst splay_loop.simps) simp
    moreover have "contents (close c') = contents (close u)"
      using c'(6) splay_step_contents [OF step 1(2)] by simp
    moreover have "near_ok u \<longrightarrow> sizes_ok (focus c')"
      using c'(7) splay_step_near_ok [OF step 1(2)] by blast
    ultimately show ?thesis using c' same by simp
  qed
qed

lemma ssize_length: "sizes_ok t \<Longrightarrow> ssize t = length (seq t)"
  by (induction t) auto

lemma plug_append: "plug t (q @ q') = plug (plug t q) q'"
  by (induction q arbitrary: t) auto

lemma findNode_loop_correct:
  "sizes_ok (focus p) \<Longrightarrow> cumulated \<le> i \<Longrightarrow> i < cumulated + ssize (focus p) \<Longrightarrow>
   \<exists>u q. findNode_loop i cumulated p = Return (Cursor u (q @ dads p) (csize p)) \<and>
         u \<noteq> Null \<and> data u = seq (focus p) ! (i - cumulated) \<and>
         seq (plug u q) = seq (focus p) \<and> ssize (plug u q) = ssize (focus p) \<and>
         sizes_ok (plug u q)"
proof (induction i cumulated p rule: findNode_loop.induct)
  case (1 i cumulated p)
  obtain t path ds where p: "p = Cursor t path ds" by (cases p)
  with "1.prems" obtain a x l r s f where t: "t = Node a x l r s f" by (cases t) auto
  define l' where "l' = (if f then toggle r else l)"
  define r' where "r' = (if f then toggle l else r)"
  have pt: "push t = Node a x l' r' s False" by (simp add: t l'_def r'_def)
  have seqt: "seq t = seq l' @ x # seq r'" by (simp add: t l'_def r'_def)
  have ok: "sizes_ok l'" "sizes_ok r'" "s = 1 + ssize l' + ssize r'"
    using "1.prems"(1) p t by (auto simp: l'_def r'_def)
  have len: "length (seq l') = ssize l'" "length (seq r') = ssize r'"
    using ok by (simp_all add: ssize_length)
  have st: "ssize t = s" by (simp add: t)
  have fp: "focus p = Node a x l r s f" by (simp add: p t)
  let ?index = "cumulated + ssize l'"
  have idx: "cumulated + leftSubtreeSize (focus (push_focus p)) = ?index"
    by (simp add: p pt)
  consider (found) "?index = i" | (left) "i < ?index" | (right) "?index < i" by linarith
  then show ?case
  proof cases
    case found
    have "findNode_loop i cumulated p = Return (Cursor (push t) path ds)"
      using found idx p t by (subst findNode_loop.simps) (simp add: Let_def)
    moreover have "data (push t) = seq t ! (i - cumulated)"
      using found len by (auto simp: pt seqt nth_append)
    moreover have "seq (push t) = seq t" "ssize (push t) = ssize t" "sizes_ok (push t)"
      "push t \<noteq> Null"
      using seqt st ok by (simp_all add: pt)
    ultimately show ?thesis
      using p by (intro exI [of _ "push t"] exI [of _ "[]"]) simp
  next
    case left
    let ?fr = "Frame False a x r' s False"
    have dn: "down False (push_focus p) = Cursor l' (?fr # path) ds"
      by (simp add: p pt)
    have "\<exists>u q. findNode_loop i cumulated (down False (push_focus p)) =
              Return (Cursor u (q @ dads (down False (push_focus p))) (csize (down False (push_focus p)))) \<and>
         u \<noteq> Null \<and> data u = seq (focus (down False (push_focus p))) ! (i - cumulated) \<and>
         seq (plug u q) = seq (focus (down False (push_focus p))) \<and>
         ssize (plug u q) = ssize (focus (down False (push_focus p))) \<and>
         sizes_ok (plug u q)"
      using left idx fp "1.prems"(2) ok
      by (intro "1.IH"(1) [OF _ refl refl]) (auto simp: dn)
    then obtain u q where
      r: "findNode_loop i cumulated (down False (push_focus p)) = Return (Cursor u (q @ ?fr # path) ds)"
      and u: "u \<noteq> Null" "data u = seq l' ! (i - cumulated)" "seq (plug u q) = seq l'"
        "ssize (plug u q) = ssize l'" "sizes_ok (plug u q)"
      by (auto simp: dn)
    have "findNode_loop i cumulated p = Return (Cursor u ((q @ [?fr]) @ path) ds)"
      using left idx p t r by (subst findNode_loop.simps) (simp add: Let_def)
    moreover have "data u = seq t ! (i - cumulated)"
      using left len u(2) "1.prems"(2) by (auto simp: seqt nth_append)
    moreover have "seq (plug u (q @ [?fr])) = seq t"
      using u(3) by (simp add: plug_append seqt)
    moreover have "ssize (plug u (q @ [?fr])) = ssize t"
      by (simp add: plug_append st)
    moreover have "sizes_ok (plug u (q @ [?fr]))"
      using u(4,5) ok by (simp add: plug_append)
    ultimately show ?thesis
      using u(1) p by (intro exI [of _ u] exI [of _ "q @ [?fr]"]) simp
  next
    case right
    let ?fr = "Frame True a x l' s False"
    have dn: "down True (push_focus p) = Cursor r' (?fr # path) ds"
      by (simp add: p pt)
    have bound: "i < ?index + 1 + ssize r'"
      using "1.prems"(3) p st ok(3) by simp
    have "\<exists>u q. findNode_loop i (?index + 1) (down True (push_focus p)) =
              Return (Cursor u (q @ dads (down True (push_focus p))) (csize (down True (push_focus p)))) \<and>
         u \<noteq> Null \<and> data u = seq (focus (down True (push_focus p))) ! (i - (?index + 1)) \<and>
         seq (plug u q) = seq (focus (down True (push_focus p))) \<and>
         ssize (plug u q) = ssize (focus (down True (push_focus p))) \<and>
         sizes_ok (plug u q)"
      using right idx fp ok bound
      by (intro "1.IH"(2) [OF _ refl refl, unfolded idx]) (auto simp: dn)
    then obtain u q where
      r: "findNode_loop i (?index + 1) (down True (push_focus p)) = Return (Cursor u (q @ ?fr # path) ds)"
      and u: "u \<noteq> Null" "data u = seq r' ! (i - (?index + 1))" "seq (plug u q) = seq r'"
        "ssize (plug u q) = ssize r'" "sizes_ok (plug u q)"
      by (auto simp: dn)
    have "findNode_loop i cumulated p = Return (Cursor u ((q @ [?fr]) @ path) ds)"
      using right idx p t r by (subst findNode_loop.simps) (simp add: Let_def)
    moreover have "data u = seq t ! (i - cumulated)"
    proof -
      have "i - cumulated = length (seq l') + Suc (i - (?index + 1))"
        using right len by simp
      then show ?thesis
        using u(2) by (simp add: seqt nth_append)
    qed
    moreover have "seq (plug u (q @ [?fr])) = seq t"
      using u(3) by (simp add: plug_append seqt)
    moreover have "ssize (plug u (q @ [?fr])) = ssize t"
      by (simp add: plug_append st)
    moreover have "sizes_ok (plug u (q @ [?fr]))"
      using u(4,5) ok by (simp add: plug_append)
    ultimately show ?thesis
      using u(1) p by (intro exI [of _ u] exI [of _ "q @ [?fr]"]) simp
  qed
qed

section \<open>findNode, splay and at\<close>

lemma tree_size_length: "sizes_ok (dummy_son t) \<Longrightarrow> tree_size t = length (contents t)"
  by (simp add: tree_size_def contents_def ssize_length)

lemma findNode_correct:
  assumes "sizes_ok (dummy_son t)" and "i < tree_size t"
  shows "\<exists>p. findNode i t = Return p \<and> focus p \<noteq> Null \<and>
           data (focus p) = contents t ! i \<and> contents (close p) = contents t \<and>
           sizes_ok (dummy_son (close p)) \<and> dummy_size (close p) = dummy_size t"
proof -
  from findNode_loop_correct [of "root t" 0 i] assms obtain u q where
    r: "findNode_loop i 0 (root t) = Return (Cursor u (q @ []) (dummy_size t))" and
    u: "u \<noteq> Null" "data u = seq (dummy_son t) ! i" "seq (plug u q) = seq (dummy_son t)"
       "sizes_ok (plug u q)"
    by (auto simp: root_def tree_size_def)
  show ?thesis
    using r u by (intro exI [of _ "Cursor u q (dummy_size t)"]) (simp add: findNode_def contents_def)
qed

lemma splay_correct:
  assumes "focus p \<noteq> Null"
  shows "\<exists>c. splay (At p) = Return c \<and> root_data (close c) = Some (data (focus p)) \<and>
           contents (close c) = contents (close p) \<and>
           (near_ok p \<longrightarrow> sizes_ok (dummy_son (close c)))"
proof -
  from splay_loop_correct [OF assms] obtain c where
    c: "splay_loop p = Return c" "dads c = []" "focus c \<noteq> Null"
       "data (focus c) = data (focus p)" "contents (close c) = contents (close p)"
       "near_ok p \<longrightarrow> sizes_ok (focus c)"
    by blast
  obtain u ds where cc: "c = Cursor u [] ds" using c(2) by (cases c) auto
  with c(3) obtain a x l r s f where "u = Node a x l r s f" by (cases u) auto
  with c cc show ?thesis
    by (intro exI [of _ c]) (simp add: root_data_def)
qed

lemma near_ok_close: "sizes_ok (dummy_son (close p)) \<Longrightarrow> near_ok p"
  by (cases p) (auto simp: near_ok_def dest: sizes_ok_plug_D)

lemma at_correct:
  assumes "sizes_ok (dummy_son t)" and "i < tree_size t"
  shows "\<exists>t'. at i t = Return (contents t ! i, t') \<and> contents t' = contents t \<and>
           sizes_ok (dummy_son t')"
proof -
  from findNode_correct [OF assms] obtain p where
    p: "findNode i t = Return p" "focus p \<noteq> Null" "data (focus p) = contents t ! i"
       "contents (close p) = contents t" "sizes_ok (dummy_son (close p))"
    by blast
  from splay_correct [OF p(2)] near_ok_close [OF p(5)] obtain c where
    c: "splay (At p) = Return c" "root_data (close c) = Some (data (focus p))"
       "contents (close c) = contents (close p)" "sizes_ok (dummy_son (close c))"
    by blast
  have "at i t = Return (contents t ! i, close c)"
    using assms(2) p(1,3) c(1,2) by (simp add: at_def)
  with c p show ?thesis by simp
qed

lemma at_all_correct:
  assumes "sizes_ok (dummy_son t)" and "\<forall>j \<in> set js. j < tree_size t"
  shows "\<exists>t'. at_all js t = Return (map (\<lambda>j. contents t ! j) js, t') \<and>
           contents t' = contents t \<and> sizes_ok (dummy_son t')"
  using assms
proof (induction js arbitrary: t)
  case Nil
  then show ?case by simp
next
  case (Cons j js)
  from at_correct [of t j] Cons.prems obtain t1 where
    t1: "at j t = Return (contents t ! j, t1)" "contents t1 = contents t" "sizes_ok (dummy_son t1)"
    by auto
  have "tree_size t1 = tree_size t"
    using t1 Cons.prems(1) by (simp add: tree_size_length)
  with Cons.prems(2) have "\<forall>j \<in> set js. j < tree_size t1" by simp
  from Cons.IH [OF t1(3) this] obtain t2 where
    "at_all js t1 = Return (map (\<lambda>j. contents t1 ! j) js, t2)" "contents t2 = contents t1"
    "sizes_ok (dummy_son t2)"
    by blast
  with t1 show ?case by simp
qed

lemma of_list_five_sizes_ok: "sizes_ok (dummy_son (of_list [10, 20, 30, 40, 50 :: nat]))"
  by code_simp

lemma of_list_five_size: "tree_size (of_list [10, 20, 30, 40, 50 :: nat]) = 5"
  by code_simp

lemma of_list_five_contents: "contents (of_list [10, 20, 30, 40, 50 :: nat]) = [10, 20, 30, 40, 50]"
  by code_simp

section \<open>insert at the end\<close>

lemma close_down: "focus c \<noteq> Null \<Longrightarrow> close (down dir c) = close c"
  by (cases c; cases "focus c") auto

lemma rightmost_no_flags:
  "no_flags (focus p) \<Longrightarrow> focus p \<noteq> Null \<Longrightarrow>
   focus (rightmost p) \<noteq> Null \<and>
   wraps (dads (rightmost p)) (seq (link son True (focus (rightmost p)))) =
     wraps (dads p) (seq (focus p) @ seq son)"
proof (induction p rule: rightmost.induct)
  case (1 p)
  obtain t path ds where p: "p = Cursor t path ds" by (cases p)
  with "1.prems" obtain a x l r s where t: "t = Node a x l r s False" by (cases t) auto
  show ?case
  proof (cases r)
    case Null
    then have "rightmost p = p"
      using p t by (subst rightmost.simps) simp
    then show ?thesis using p t Null by simp
  next
    case (Node a' x' l' r' s' f')
    then have rm: "rightmost p = rightmost (down True p)"
      using p t by (subst rightmost.simps) simp
    have dn: "down True p = Cursor r (Frame True a x l s False # path) ds"
      using p t by simp
    have "focus (rightmost (down True p)) \<noteq> Null \<and>
      wraps (dads (rightmost (down True p))) (seq (link son True (focus (rightmost (down True p))))) =
      wraps (dads (down True p)) (seq (focus (down True p)) @ seq son)"
      using "1.prems" p t Node by (intro "1.IH" [of a x l r s False a' x' l' r' s' f']) (auto simp: dn)
    then show ?thesis
      using rm dn p t by (simp add: Let_def)
  qed
qed

lemma locate_root: "locate n (Node n x l r s f) [] = Some (Node n x l r s f, [])"
  by simp

lemma insert_end_correct:
  assumes "no_flags (dummy_son t)"
  shows "\<exists>t'. insert_it n End e t = Return (It n, t') \<and> contents t' = contents t @ [e] \<and>
           deref (It n) t' = Some e"
proof -
  have "\<exists>new. attach_new n e (Dummy t) = Return new \<and> focus new = new_node n e \<and>
          contents (close new) = contents t @ [e]"
  proof (cases "dummy_son t")
    case Null
    then show ?thesis
      by (simp add: root_def dummy_link_def contents_def new_node_def)
  next
    case (Node a x l r s f)
    let ?c0 = "rightmost (root t)"
    let ?c1 = "link_focus (new_node n e) True ?c0"
    from rightmost_no_flags [of "root t" "new_node n e"] assms Node
    have nn: "focus ?c0 \<noteq> Null" and
      w: "wraps (dads ?c0) (seq (link (new_node n e) True (focus ?c0))) = contents t @ [e]"
      by (auto simp: root_def contents_def new_node_def)
    obtain u path ds where c0: "?c0 = Cursor u path ds" by (cases ?c0)
    with nn obtain a' x' l' r' s' f' where u: "u = Node a' x' l' r' s' f'" by (cases u) auto
    have "attach_new n e (Dummy t) = Return (down True ?c1)"
      using Node by simp
    moreover have "focus (down True ?c1) = new_node n e"
      using c0 u by simp
    moreover have "contents (close (down True ?c1)) = contents t @ [e]"
    proof -
      have "focus ?c1 \<noteq> Null" using c0 u by simp
      then have "close (down True ?c1) = close ?c1" by (rule close_down)
      moreover have "contents (close ?c1) = wraps (dads ?c0) (seq (link (new_node n e) True (focus ?c0)))"
        using c0 by (simp add: contents_def seq_plug)
      ultimately show ?thesis using w by simp
    qed
    ultimately show ?thesis by blast
  qed
  then obtain new where new: "attach_new n e (Dummy t) = Return new" "focus new = new_node n e"
    "contents (close new) = contents t @ [e]"
    by blast
  have "focus new \<noteq> Null" using new(2) by (simp add: new_node_def)
  from splay_loop_correct [OF this] obtain c where
    c: "splay_loop new = Return c" "dads c = []" "focus c \<noteq> Null"
       "addr (focus c) = n" "data (focus c) = e" "contents (close c) = contents (close new)"
    using new(2) by (auto simp: new_node_def)
  obtain u ds where cc: "c = Cursor u [] ds" using c(2) by (cases c) auto
  with c obtain x l r s f where u: "u = Node n e l r s f" by (cases u) auto
  have "insert_it n End e t = Return (It n, close c)"
    using new(1) c(1) by (simp add: insert_it_def insert_ref_def)
  moreover have "deref (It n) (close c) = Some e"
    using cc u by simp
  ultimately show ?thesis using c(6) new(3) by simp
qed

section \<open>The size invariant under every operation\<close>

lemma outcome_ok_bind:
  assumes "outcome_ok P m" and "\<And>x. m = Return x \<Longrightarrow> P x \<Longrightarrow> outcome_ok Q (k x)"
  shows "outcome_ok Q (case m of Return x \<Rightarrow> k x | Throw e t \<Rightarrow> Throw e t | UB b \<Rightarrow> UB b)"
  using assms by (cases m) auto

lemma sizes_ok_plug_cong:
  "ssize t = ssize t' \<Longrightarrow> sizes_ok t = sizes_ok t' \<Longrightarrow>
   sizes_ok (plug t path) = sizes_ok (plug t' path)"
proof (induction path arbitrary: t t')
  case Nil
  then show ?case by simp
next
  case (Cons v path)
  have "ssize (attach v t) = ssize (attach v t')" by (cases v) simp
  moreover have "sizes_ok (attach v t) = sizes_ok (attach v t')"
    using Cons.prems by (cases v) auto
  ultimately show ?case using Cons.IH [of "attach v t" "attach v t'"] by simp
qed

lemma inv_push_focus:
  "sizes_ok (dummy_son (close (push_focus c))) = sizes_ok (dummy_son (close c))"
proof (cases c)
  case (Cursor t path ds)
  have "sizes_ok (plug (push t) path) = sizes_ok (plug t path)"
    by (rule sizes_ok_plug_cong) simp_all
  with Cursor show ?thesis by simp
qed

lemma focus_push_focus: "focus c \<noteq> Null \<Longrightarrow> focus (push_focus c) \<noteq> Null"
  by (cases c; cases "focus c") auto

lemma findNode_loop_inv:
  "findNode_loop i cumulated p = Return p' \<Longrightarrow>
   focus p' \<noteq> Null \<and> sizes_ok (dummy_son (close p')) = sizes_ok (dummy_son (close p))"
proof (induction i cumulated p rule: findNode_loop.induct)
  case (1 i cumulated p)
  from "1.prems" obtain a x l r s f where fp: "focus p = Node a x l r s f"
    by (subst (asm) findNode_loop.simps) (cases "focus p", auto)
  let ?p = "push_focus p"
  let ?index = "cumulated + leftSubtreeSize (focus ?p)"
  have nn: "focus ?p \<noteq> Null" using fp by (simp add: focus_push_focus)
  have step: "\<And>d. sizes_ok (dummy_son (close (down d ?p))) = sizes_ok (dummy_son (close p))"
    using nn by (simp add: close_down inv_push_focus)
  consider (found) "?index = i" | (left) "?index \<noteq> i" "i < ?index"
    | (right) "?index \<noteq> i" "\<not> i < ?index" by blast
  then show ?case
  proof cases
    case found
    with "1.prems" fp have "p' = ?p"
      by (subst (asm) findNode_loop.simps) (simp add: Let_def)
    with nn show ?thesis by (simp add: inv_push_focus)
  next
    case left
    with "1.prems" fp have "findNode_loop i cumulated (down False ?p) = Return p'"
      by (subst (asm) findNode_loop.simps) (simp add: Let_def)
    from "1.IH"(1) [OF fp refl refl left this] step show ?thesis by simp
  next
    case right
    with "1.prems" fp have "findNode_loop i (?index + 1) (down True ?p) = Return p'"
      by (subst (asm) findNode_loop.simps) (simp add: Let_def)
    from "1.IH"(2) [OF fp refl refl right this] step show ?thesis by simp
  qed
qed

lemma findNode_loop_no_throw: "findNode_loop i cumulated p \<noteq> Throw e t"
proof (induction i cumulated p rule: findNode_loop.induct)
  case (1 i cumulated p)
  show ?case
  proof (cases "focus p")
    case Null
    then show ?thesis by (subst findNode_loop.simps) simp
  next
    case (Node a x l r s f)
    then show ?thesis
      using "1.IH" [OF Node refl refl]
      by (subst findNode_loop.simps) (auto simp: Let_def)
  qed
qed

lemma findNode_ok:
  "sizes_ok (dummy_son t) \<Longrightarrow>
   outcome_ok (\<lambda>p. focus p \<noteq> Null \<and> sizes_ok (dummy_son (close p))) (findNode i t)"
  using findNode_loop_inv [of i 0 "root t"] findNode_loop_no_throw [of i 0 "root t"]
  by (cases "findNode i t") (auto simp: findNode_def root_def)

lemma splay_ok:
  assumes "focus p \<noteq> Null" and "sizes_ok (dummy_son (close p))"
  shows "outcome_ok (\<lambda>c. dummy_son (close c) \<noteq> Null \<and> sizes_ok (dummy_son (close c))) (splay (At p))"
proof -
  from splay_loop_correct [OF assms(1)] near_ok_close [OF assms(2)] obtain c where
    c: "splay_loop p = Return c" "dads c = []" "focus c \<noteq> Null" "sizes_ok (focus c)"
    by blast
  then show ?thesis by (cases c) auto
qed

lemma splay_near_ok:
  assumes "focus p \<noteq> Null" and "near_ok p"
  shows "outcome_ok (\<lambda>c. dummy_son (close c) \<noteq> Null \<and> sizes_ok (dummy_son (close c))) (splay (At p))"
proof -
  from splay_loop_correct [OF assms(1)] assms(2) obtain c where
    c: "splay_loop p = Return c" "dads c = []" "focus c \<noteq> Null" "sizes_ok (focus c)"
    by blast
  then show ?thesis by (cases c) auto
qed

lemma at_ok:
  assumes "sizes_ok (dummy_son t)"
  shows "outcome_ok (\<lambda>(x, t'). sizes_ok (dummy_son t')) (at i t)"
proof (cases "i \<ge> tree_size t")
  case True
  with assms show ?thesis by (simp add: at_def)
next
  case False
  have "outcome_ok (\<lambda>(x, t'). sizes_ok (dummy_son t'))
     (case findNode i t of
             Return p \<Rightarrow>
               (case splay (At p) of
                  Return c \<Rightarrow>
                    (case root_data (close c) of
                       None \<Rightarrow> UB null_deref
                     | Some x \<Rightarrow> Return (x, close c))
                | Throw e t' \<Rightarrow> Throw e t'
                | UB b \<Rightarrow> UB b)
           | Throw e t' \<Rightarrow> Throw e t'
           | UB b \<Rightarrow> UB b)"
  proof (rule outcome_ok_bind [OF findNode_ok [OF assms]], goal_cases)
    case (1 p)
    then show ?case
      by (intro outcome_ok_bind [OF splay_ok]) (auto split: option.splits)
  qed
  with False show ?thesis by (simp add: at_def)
qed

lemma at_const_ok:
  assumes "sizes_ok (dummy_son t)"
  shows "outcome_ok (\<lambda>(x, t'). sizes_ok (dummy_son t')) (at_const i t)"
  using findNode_ok [OF assms, of i] assms
  by (cases "findNode i t") (auto simp: at_const_def split: tree.splits)

lemma descend_inv:
  "focus c \<noteq> Null \<Longrightarrow>
   focus (descend dir c) \<noteq> Null \<and>
   sizes_ok (dummy_son (close (descend dir c))) = sizes_ok (dummy_son (close c))"
proof (induction dir c rule: descend.induct)
  case (1 dir c)
  from "1.prems" obtain a x l r s f where fc: "focus c = Node a x l r s f"
    by (cases "focus c") auto
  show ?case
  proof (cases "focus (down dir c)")
    case Null
    with fc have "descend dir c = c" by (subst descend.simps) simp
    with "1.prems" show ?thesis by simp
  next
    case (Node a' x' l' r' s' f')
    with fc have d: "descend dir c = descend dir (push_focus (down dir c))"
      by (subst descend.simps) simp
    have "focus (push_focus (down dir c)) \<noteq> Null"
      using Node by (simp add: focus_push_focus)
    from "1.IH" [OF fc Node this] show ?thesis
      using d "1.prems" by (simp add: inv_push_focus close_down)
  qed
qed

lemma climb_inc_close: "close_ref (climb_inc c) = close c"
  by (induction c rule: climb_inc.induct) auto

lemma climb_inc_iterator: "iterator_of (climb_inc c) \<noteq> None"
proof (induction c rule: climb_inc.induct)
  case (1 t ds)
  then show ?case by simp
next
  case (2 t v path ds)
  then show ?case by (cases v) auto
qed

lemma climb_dec_ok:
  "sizes_ok (dummy_son (close c)) \<Longrightarrow>
   outcome_ok (\<lambda>c'. focus c' \<noteq> Null \<and> sizes_ok (dummy_son (close c'))) (climb_dec c)"
proof (induction c rule: climb_dec.induct)
  case (1 t ds)
  then show ?case by simp
next
  case (2 t v path ds)
  then show ?case by (cases v) auto
qed

lemma inc_ok:
  assumes "sizes_ok (dummy_son (close_ref r))"
  shows "outcome_ok (\<lambda>r'. iterator_of r' \<noteq> None \<and> sizes_ok (dummy_son (close_ref r'))) (inc r)"
proof (cases r)
  case (Dummy t)
  with assms show ?thesis by simp
next
  case (At c)
  show ?thesis
  proof (cases "focus c")
    case Null
    with At show ?thesis by simp
  next
    case (Node a x l r' s f)
    let ?c1 = "push_focus c"
    have nn: "focus ?c1 \<noteq> Null" using Node by (simp add: focus_push_focus)
    have ok1: "sizes_ok (dummy_son (close ?c1))" using assms At by (simp add: inv_push_focus)
    show ?thesis
    proof (cases "focus (down True ?c1)")
      case Null
      then have "inc r = Return (climb_inc ?c1)"
        using At Node by (simp add: Let_def)
      then show ?thesis
        using ok1 climb_inc_iterator [of ?c1] by (auto simp: climb_inc_close)
    next
      case (Node a' x' l' r'' s' f')
      let ?c2 = "push_focus (down True ?c1)"
      have r: "inc r = Return (At (descend False ?c2))"
        using At \<open>focus c = _\<close> Node by (simp add: Let_def)
      have "focus ?c2 \<noteq> Null" using Node by (simp add: focus_push_focus)
      from descend_inv [OF this, of False] have
        "focus (descend False ?c2) \<noteq> Null" "sizes_ok (dummy_son (close (descend False ?c2)))"
        using ok1 nn by (simp_all add: inv_push_focus close_down)
      then show ?thesis using r by (cases "descend False ?c2"; cases "focus (descend False ?c2)") auto
    qed
  qed
qed

lemma inc_throw_unchanged: "inc r = Throw e t \<Longrightarrow> t = close_ref r \<and> r = Dummy t"
  by (cases r) (auto simp: Let_def split: tree.splits)

lemma dec_ok:
  assumes "sizes_ok (dummy_son (close_ref r))"
  shows "outcome_ok (\<lambda>c. focus c \<noteq> Null \<and> sizes_ok (dummy_son (close c))) (dec r)"
proof (cases r)
  case (Dummy t)
  show ?thesis
  proof (cases "dummy_son t")
    case Null
    with Dummy assms show ?thesis by simp
  next
    case (Node a x l r' s f)
    let ?c = "push_focus (root t)"
    have "focus ?c \<noteq> Null"
      using Node by (simp add: root_def)
    from descend_inv [OF this, of True] have
      "focus (descend True ?c) \<noteq> Null"
      "sizes_ok (dummy_son (close (descend True ?c))) = sizes_ok (dummy_son (close (root t)))"
      by (simp_all add: inv_push_focus)
    moreover have "close (root t) = t" by (simp add: root_def)
    moreover have "dec r = Return (descend True ?c)" using Dummy Node by simp
    ultimately show ?thesis using assms Dummy by simp
  qed
next
  case (At c)
  show ?thesis
  proof (cases "focus c")
    case Null
    with At show ?thesis by simp
  next
    case (Node a x l r' s f)
    let ?c1 = "push_focus c"
    have nn: "focus ?c1 \<noteq> Null" using Node by (simp add: focus_push_focus)
    have ok1: "sizes_ok (dummy_son (close ?c1))" using assms At by (simp add: inv_push_focus)
    show ?thesis
    proof (cases "focus (down False ?c1)")
      case Null
      then have "dec r = climb_dec ?c1"
        using At Node by (simp add: Let_def)
      then show ?thesis using climb_dec_ok [OF ok1] by simp
    next
      case (Node a' x' l' r'' s' f')
      let ?c2 = "push_focus (down False ?c1)"
      have r: "dec r = Return (descend True ?c2)"
        using At \<open>focus c = _\<close> Node by (simp add: Let_def)
      have "focus ?c2 \<noteq> Null" using Node by (simp add: focus_push_focus)
      from descend_inv [OF this, of True] have
        "focus (descend True ?c2) \<noteq> Null" "sizes_ok (dummy_son (close (descend True ?c2)))"
        using ok1 nn by (simp_all add: inv_push_focus close_down)
      then show ?thesis using r by simp
    qed
  qed
qed

lemma locate_plug:
  "locate n t path = Some (u, path') \<Longrightarrow> plug u path' = plug t path"
proof (induction t arbitrary: path)
  case Null
  then show ?case by simp
next
  case (Node a x l r s f)
  show ?case
  proof (cases "n = a")
    case True
    with Node.prems show ?thesis by auto
  next
    case False
    show ?thesis
    proof (cases "locate n l (Frame False a x r s f # path)")
      case None
      with False Node.prems have "locate n r (Frame True a x l s f # path) = Some (u, path')"
        by simp
      from Node.IH(2) [OF this] show ?thesis by simp
    next
      case (Some found)
      with False Node.prems have "locate n l (Frame False a x r s f # path) = Some (u, path')"
        by simp
      from Node.IH(1) [OF this] show ?thesis by simp
    qed
  qed
qed

lemma resolve_close: "resolve it t = Some r \<Longrightarrow> close_ref r = t"
  by (cases it) (auto split: option.splits dest: locate_plug)

lemma sizes_ok_dummy_link [simp]: "sizes_ok (dummy_son (dummy_link t)) = sizes_ok t"
  by (simp add: dummy_link_def)

lemma split_ref_ok:
  assumes "sizes_ok (dummy_son (close_ref r))"
  shows "outcome_ok (\<lambda>(t1, t2). sizes_ok (dummy_son t1) \<and> sizes_ok (dummy_son t2)) (split_ref r)"
proof (cases "dec r")
  case (Return prev)
  with dec_ok [OF assms] have prev: "focus prev \<noteq> Null" "sizes_ok (dummy_son (close prev))"
    by simp_all
  show ?thesis
  proof (cases "splay (At prev)")
    case (Return c)
    with splay_ok [OF prev] have c: "dummy_son (close c) \<noteq> Null" "sizes_ok (dummy_son (close c))"
      by simp_all
    then obtain a x l r' s f where "dummy_son (close c) = Node a x l r' s f"
      by (cases "dummy_son (close c)") auto
    with c \<open>dec r = Return prev\<close> Return show ?thesis
      by (simp add: split_ref_def)
  next
    case (Throw e t)
    with splay_ok [OF prev] \<open>dec r = Return prev\<close> show ?thesis
      by (simp add: split_ref_def)
  next
    case (UB b)
    with \<open>dec r = Return prev\<close> show ?thesis by (simp add: split_ref_def)
  qed
next
  case (Throw e t)
  with dec_ok [OF assms] have "sizes_ok (dummy_son t)" by simp
  with Throw show ?thesis
    by (cases e) (simp_all add: split_ref_def swap_def empty_tree_def dummy_link_def)
next
  case (UB b)
  then show ?thesis by (simp add: split_ref_def)
qed

lemma split_it_ok:
  "sizes_ok (dummy_son t) \<Longrightarrow>
   outcome_ok (\<lambda>(t1, t2). sizes_ok (dummy_son t1) \<and> sizes_ok (dummy_son t2)) (split_it it t)"
  by (cases "resolve it t") (auto simp: split_it_def dest: resolve_close intro: split_ref_ok)

lemma split_ok:
  assumes "sizes_ok (dummy_son t)"
  shows "outcome_ok (\<lambda>(t1, t2). sizes_ok (dummy_son t1) \<and> sizes_ok (dummy_son t2)) (split i t)"
  unfolding split_def
  by (rule outcome_ok_bind [OF findNode_ok [OF assms]]) (simp add: split_ref_ok)

lemma merge_ok:
  assumes "sizes_ok (dummy_son this)" and "sizes_ok (dummy_son rhs)"
  shows "outcome_ok (\<lambda>(t1, t2). sizes_ok (dummy_son t1) \<and> sizes_ok (dummy_son t2)) (merge this rhs)"
proof (cases "tree_empty this \<or> tree_empty rhs")
  case True
  with assms show ?thesis by (auto simp: merge_def swap_def)
next
  case False
  let ?Q = "\<lambda>(t1, t2). sizes_ok (dummy_son t1) \<and> sizes_ok (dummy_son t2)"
  have "outcome_ok ?Q
     (case findNode (tree_size this - 1) this of
        Return p \<Rightarrow>
               (case splay (At p) of
                  Return c \<Rightarrow>
                    (case dummy_son (close c) of
                       Null \<Rightarrow> UB null_deref
                     | Node a x l r s f \<Rightarrow>
                         Return (\<lparr>dummy_son = link (dummy_son rhs) True (Node a x l r s f),
                                  dummy_size = dummy_size (close c)\<rparr>,
                                 rhs\<lparr>dummy_son := Null\<rparr>))
                | Throw e t \<Rightarrow> Throw e t
                | UB b \<Rightarrow> UB b)
      | Throw e t \<Rightarrow> Throw e t
      | UB b \<Rightarrow> UB b)"
  proof (rule outcome_ok_bind [OF findNode_ok [OF assms(1)]], goal_cases)
    case (1 p)
    then show ?case
      using assms(2) by (intro outcome_ok_bind [OF splay_ok]) (auto split: tree.splits)
  qed
  moreover have "merge this rhs = (case findNode (tree_size this - 1) this of
        Return p \<Rightarrow>
               (case splay (At p) of
                  Return c \<Rightarrow>
                    (case dummy_son (close c) of
                       Null \<Rightarrow> UB null_deref
                     | Node a x l r s f \<Rightarrow>
                         Return (\<lparr>dummy_son = link (dummy_son rhs) True (Node a x l r s f),
                                  dummy_size = dummy_size (close c)\<rparr>,
                                 rhs\<lparr>dummy_son := Null\<rparr>))
                | Throw e t \<Rightarrow> Throw e t
                | UB b \<Rightarrow> UB b)
      | Throw e t \<Rightarrow> Throw e t
      | UB b \<Rightarrow> UB b)"
    using False by (simp add: merge_def split: outcome.splits)
  ultimately show ?thesis by simp
qed

lemma reverseTree_ok [simp]: "sizes_ok (dummy_son (reverseTree t)) = sizes_ok (dummy_son t)"
  by (simp add: reverseTree_def)

lemma reverse_ok:
  assumes "sizes_ok (dummy_son t)"
  shows "outcome_ok (\<lambda>t'. sizes_ok (dummy_son t')) (reverse first last' t)"
proof -
  let ?Q = "\<lambda>t'. sizes_ok (dummy_son t')"
  have "outcome_ok ?Q
     (case split last' t of
             Return (t1, right) \<Rightarrow>
               (case split first t1 of
                  Return (t2, center) \<Rightarrow>
                    (case merge t2 (reverseTree center) of
                       Return (t3, center') \<Rightarrow>
                         (case merge t3 right of
                            Return (t4, right') \<Rightarrow> Return t4
                          | Throw e t' \<Rightarrow> Throw e t'
                          | UB b \<Rightarrow> UB b)
                     | Throw e t' \<Rightarrow> Throw e t'
                     | UB b \<Rightarrow> UB b)
                | Throw e t' \<Rightarrow> Throw e t'
                | UB b \<Rightarrow> UB b)
           | Throw e t' \<Rightarrow> Throw e t'
           | UB b \<Rightarrow> UB b)"
  proof (rule outcome_ok_bind [OF split_ok [OF assms]], goal_cases)
    case (1 x)
    obtain t1 right where x: "x = (t1, right)" by (cases x)
    with 1 have ok1: "sizes_ok (dummy_son t1)" "sizes_ok (dummy_son right)" by simp_all
    have "outcome_ok ?Q
      (case split first t1 of
                  Return (t2, center) \<Rightarrow>
                    (case merge t2 (reverseTree center) of
                       Return (t3, center') \<Rightarrow>
                         (case merge t3 right of
                            Return (t4, right') \<Rightarrow> Return t4
                          | Throw e t' \<Rightarrow> Throw e t'
                          | UB b \<Rightarrow> UB b)
                     | Throw e t' \<Rightarrow> Throw e t'
                     | UB b \<Rightarrow> UB b)
                | Throw e t' \<Rightarrow> Throw e t'
                | UB b \<Rightarrow> UB b)"
    proof (rule outcome_ok_bind [OF split_ok [OF ok1(1)]], goal_cases)
      case (1 y)
      obtain t2 center where y: "y = (t2, center)" by (cases y)
      with 1 have ok2: "sizes_ok (dummy_son t2)" "sizes_ok (dummy_son (reverseTree center))"
        by simp_all
      have "outcome_ok ?Q
         (case merge t2 (reverseTree center) of
                       Return (t3, center') \<Rightarrow>
                         (case merge t3 right of
                            Return (t4, right') \<Rightarrow> Return t4
                          | Throw e t' \<Rightarrow> Throw e t'
                          | UB b \<Rightarrow> UB b)
                     | Throw e t' \<Rightarrow> Throw e t'
                     | UB b \<Rightarrow> UB b)"
      proof (rule outcome_ok_bind [OF merge_ok [OF ok2]], goal_cases)
        case (1 z)
        obtain t3 center' where z: "z = (t3, center')" by (cases z)
        with 1 have ok3: "sizes_ok (dummy_son t3)" by simp
        have "outcome_ok ?Q
           (case merge t3 right of
                            Return (t4, right') \<Rightarrow> Return t4
                          | Throw e t' \<Rightarrow> Throw e t'
                          | UB b \<Rightarrow> UB b)"
          by (rule outcome_ok_bind [OF merge_ok [OF ok3 ok1(2)]]) auto
        with z show ?case by simp
      qed
      with y show ?case by simp
    qed
    with x show ?case by simp
  qed
  with assms show ?thesis by (simp add: reverse_def)
qed

lemma rightmost_near_ok:
  "focus p \<noteq> Null \<Longrightarrow> near_ok p \<Longrightarrow> focus (rightmost p) \<noteq> Null \<and> near_ok (rightmost p)"
proof (induction p rule: rightmost.induct)
  case (1 p)
  obtain t path ds where p: "p = Cursor t path ds" by (cases p)
  with "1.prems" obtain a x l r s f where t: "t = Node a x l r s f" by (cases t) auto
  show ?case
  proof (cases r)
    case Null
    then have "rightmost p = p" using p t by (subst rightmost.simps) simp
    with "1.prems" show ?thesis by simp
  next
    case (Node a' x' l' r' s' f')
    then have rm: "rightmost p = rightmost (down True p)"
      using p t by (subst rightmost.simps) simp
    have "focus (down True p) \<noteq> Null" "near_ok (down True p)"
      using "1.prems" p t Node by (auto simp: near_ok_def)
    from "1.IH" [of a x l r s f a' x' l' r' s' f', OF _ _ this] p t Node rm show ?thesis by simp
  qed
qed

lemma sizes_ok_new_node [simp]: "sizes_ok (new_node n e)"
  by (simp add: new_node_def)

lemma link_down_near_ok:
  assumes "focus c \<noteq> Null" and "near_ok c"
  shows "near_ok (down dir (link_focus (new_node n e) dir c)) \<and>
         focus (down dir (link_focus (new_node n e) dir c)) \<noteq> Null"
proof -
  obtain t path ds where c: "c = Cursor t path ds" by (cases c)
  with assms obtain a x l r s f where t: "t = Node a x l r s f" by (cases t) auto
  show ?thesis using assms c t by (auto simp: near_ok_def new_node_def)
qed

lemma near_ok_down: "focus c \<noteq> Null \<Longrightarrow> near_ok c \<Longrightarrow> near_ok (down dir c)"
  by (cases c; cases "focus c") (auto simp: near_ok_def)

lemma attach_new_ok:
  assumes "sizes_ok (dummy_son (close_ref r))"
  shows "outcome_ok (\<lambda>new. focus new \<noteq> Null \<and> near_ok new) (attach_new n e r)"
proof (cases r)
  case (Dummy t)
  show ?thesis
  proof (cases "dummy_son t")
    case Null
    with Dummy show ?thesis
      by (simp add: root_def dummy_link_def near_ok_def new_node_def)
  next
    case (Node a x l r' s f)
    have "focus (root t) \<noteq> Null" "near_ok (root t)"
      using Node assms Dummy by (auto simp: root_def near_ok_def)
    from rightmost_near_ok [OF this] link_down_near_ok [of "rightmost (root t)" True n e]
    show ?thesis using Dummy Node by simp
  qed
next
  case (At c)
  show ?thesis
  proof (cases "focus c")
    case Null
    with At show ?thesis by simp
  next
    case (Node a x l r' s f)
    have c: "focus c \<noteq> Null" "near_ok c"
      using Node assms At by (auto intro: near_ok_close)
    show ?thesis
    proof (cases l)
      case Null
      with link_down_near_ok [OF c, of False n e] At Node show ?thesis by simp
    next
      case (Node a' x' l' r'' s' f')
      have "focus (down False c) \<noteq> Null" "near_ok (down False c)"
        using c \<open>focus c = _\<close> Node by (cases c, simp) (rule near_ok_down [OF c])
      from rightmost_near_ok [OF this] link_down_near_ok [of "rightmost (down False c)" True n e]
      show ?thesis using At \<open>focus c = _\<close> Node by simp
    qed
  qed
qed

lemma insert_ref_ok:
  assumes "sizes_ok (dummy_son (close_ref r))"
  shows "outcome_ok (\<lambda>(it, t'). sizes_ok (dummy_son t')) (insert_ref n r e)"
  unfolding insert_ref_def
proof (rule outcome_ok_bind [OF attach_new_ok [OF assms]], goal_cases)
  case (1 new)
  then show ?case
    by (intro outcome_ok_bind [OF splay_near_ok]) auto
qed

lemma insert_ok:
  "sizes_ok (dummy_son t) \<Longrightarrow>
   outcome_ok (\<lambda>(it, t'). sizes_ok (dummy_son t')) (insert_it n it e t)"
  by (cases "resolve it t") (auto simp: insert_it_def dest: resolve_close intro: insert_ref_ok)

lemma begin_it_ok:
  assumes "sizes_ok (dummy_son t)"
  shows "outcome_ok (\<lambda>(it, t'). sizes_ok (dummy_son t')) (begin_it t)"
proof (cases "tree_empty t")
  case True
  with assms show ?thesis by (simp add: begin_it_def)
next
  case False
  have "outcome_ok (\<lambda>(it, t'). sizes_ok (dummy_son t'))
     (case findNode 0 t of
             Return p \<Rightarrow>
               (case iterator_of (At p) of
                  None \<Rightarrow> UB null_deref
                | Some it \<Rightarrow> Return (it, close p))
           | Throw e t' \<Rightarrow> Throw e t'
           | UB b \<Rightarrow> UB b)"
    by (rule outcome_ok_bind [OF findNode_ok [OF assms]]) (auto split: option.splits)
  with False show ?thesis by (simp add: begin_it_def)
qed

lemma buildTree_ok: "sizes_ok (buildTree xs)"
proof (induction xs rule: buildTree.induct)
  case (1 xs)
  show ?case
  proof (cases "length xs = 0 \<or> length xs = 1")
    case True
    then show ?thesis by (subst buildTree.simps) (auto simp: Let_def)
  next
    case False
    let ?mid = "length xs div 2"
    have l: "sizes_ok (buildTree (take ?mid xs))"
      using False by (intro "1.IH"(1) [OF refl _ _ refl]) auto
    have r: "sizes_ok (buildTree (drop (Suc ?mid) xs))"
      using False by (intro "1.IH"(2) [OF refl _ _ refl refl refl]) auto
    show ?thesis
      using False l r by (subst buildTree.simps) (simp add: Let_def new_node_def)
  qed
qed

lemma SplayTree_from_ok: "sizes_ok (dummy_son (SplayTree_from xs))"
  by (simp add: SplayTree_from_def buildTree_ok)

lemma swap_ok:
  "sizes_ok (dummy_son this) \<Longrightarrow> sizes_ok (dummy_son rhs) \<Longrightarrow>
   sizes_ok (dummy_son (fst (swap this rhs))) \<and> sizes_ok (dummy_son (snd (swap this rhs)))"
  by (simp add: swap_def)

section \<open>The size invariant in a list of containers\<close>

lemma all_ok_update: "all_ok ts \<Longrightarrow> sizes_ok (dummy_son t) \<Longrightarrow> all_ok (ts[k := t])"
  using set_update_subset_insert [of ts k t] by (auto simp: all_ok_def)

lemma all_ok_snoc: "all_ok ts \<Longrightarrow> sizes_ok (dummy_son t) \<Longrightarrow> all_ok (ts @ [t])"
  by (auto simp: all_ok_def)

lemma all_ok_nth: "all_ok ts \<Longrightarrow> k < length ts \<Longrightarrow> sizes_ok (dummy_son (ts ! k))"
  by (auto simp: all_ok_def)

lemma after_call_ok:
  "all_ok ts \<Longrightarrow> outcome_ok (\<lambda>(x, t'). sizes_ok (dummy_son t')) out \<Longrightarrow>
   after_call k ts out = Some ts' \<Longrightarrow> all_ok ts'"
  by (cases out) (auto intro: all_ok_update)

lemma after_split_ok:
  "all_ok ts \<Longrightarrow> outcome_ok (\<lambda>(t1, t2). sizes_ok (dummy_son t1) \<and> sizes_ok (dummy_son t2)) out \<Longrightarrow>
   after_split k ts out = Some ts' \<Longrightarrow> all_ok ts'"
  by (cases out) (auto intro!: all_ok_snoc all_ok_update)

lemma after_merge_ok:
  "all_ok ts \<Longrightarrow> outcome_ok (\<lambda>(t1, t2). sizes_ok (dummy_son t1) \<and> sizes_ok (dummy_son t2)) out \<Longrightarrow>
   after_merge k j ts out = Some ts' \<Longrightarrow> all_ok ts'"
  by (cases out) (auto intro!: all_ok_update)

lemma after_reverse_ok:
  "all_ok ts \<Longrightarrow> outcome_ok (\<lambda>t'. sizes_ok (dummy_son t')) out \<Longrightarrow>
   after_reverse k ts out = Some ts' \<Longrightarrow> all_ok ts'"
  by (cases out) (auto intro: all_ok_update)

section \<open>The size invariant under the calls that take an iterator\<close>

text \<open>
  A pointer that resolves into a container points into a container of the program, and the
  node reference found is a view of that container.
\<close>

lemma resolve_from_sound:
  "resolve_from i n ts = Some (j, r) \<Longrightarrow>
   i \<le> j \<and> j - i < length ts \<and> close_ref r = ts ! (j - i)"
proof (induction ts arbitrary: i)
  case Nil
  then show ?case by simp
next
  case (Cons t ts)
  show ?case
  proof (cases "resolve (It n) t")
    case None
    with Cons.prems have "resolve_from (Suc i) n ts = Some (j, r)" by simp
    from Cons.IH [OF this] show ?thesis by (auto simp: Suc_diff_le)
  next
    case (Some r')
    with Cons.prems have "j = i" "r' = r" by simp_all
    with resolve_close [OF Some] show ?thesis by simp
  qed
qed

lemma resolve_in_container:
  "resolve_in it p = Some (In_container j, r) \<Longrightarrow>
   j < length (containers p) \<and> close_ref r = containers p ! j"
  by (cases it) (auto split: if_splits option.splits dest: resolve_from_sound)

lemma resolve_in_fits:
  assumes "all_ok (containers p)" and "resolve_in it p = Some (pl, r)"
  shows "fits pl (close_ref r)"
proof (cases pl)
  case (In_container j)
  with resolve_in_container [of it p j r] assms(2) all_ok_nth [OF assms(1), of j]
  show ?thesis by simp
next
  case (In_leak i)
  then show ?thesis by simp
qed

lemma store_ok:
  "all_ok (containers p) \<Longrightarrow> fits pl t \<Longrightarrow>
   all_ok (containers (store pl t p)) \<and>
   length (containers (store pl t p)) = length (containers p)"
  by (cases pl) (auto intro: all_ok_update)

lemma outcome_fits_container:
  "outcome_ok P out \<Longrightarrow> outcome_fits (In_container j) P out"
  by (cases out) auto

lemma outcome_fits_leak:
  "(\<And>x. out = Return x \<Longrightarrow> P x) \<Longrightarrow> outcome_fits (In_leak i) P out"
  by (cases out) auto

lemma inc_fits:
  assumes "fits pl (close_ref r)"
  shows "outcome_fits pl (\<lambda>r'. fits pl (close_ref r')) (inc r)"
proof (cases pl)
  case (In_container j)
  with assms inc_ok [of r] show ?thesis
    by (cases "inc r") auto
next
  case (In_leak i)
  then show ?thesis by (cases "inc r") auto
qed

lemma dec_at_fits:
  assumes "fits pl (close_ref r)"
  shows "outcome_fits pl (\<lambda>prev. splayable pl prev \<and> fits pl (close_ref prev)) (dec_at pl r)"
proof (cases pl)
  case (In_container j)
  with assms dec_ok [of r] show ?thesis
    by (cases "dec r") auto
next
  case (In_leak i)
  then show ?thesis by (cases "dec_at pl r") auto
qed

lemma splay_at_fits:
  assumes "splayable pl prev"
  shows "outcome_fits pl (\<lambda>t. fits pl t) (splay_at prev)"
proof (cases pl)
  case (In_container j)
  with assms obtain c where c: "prev = At c" "focus c \<noteq> Null" "sizes_ok (dummy_son (close c))"
    by (cases prev) auto
  from splay_ok [OF c(2,3)] c(1) In_container show ?thesis
    by (cases "splay (At c)") auto
next
  case (In_leak i)
  then show ?thesis by (cases "splay_at prev") auto
qed

lemma insert_ref_fits:
  assumes "fits pl (close_ref r)"
  shows "outcome_fits pl (\<lambda>(new, t). fits pl t) (insert_ref n r e)"
proof (cases pl)
  case (In_container j)
  with assms insert_ref_ok [of r n e] show ?thesis
    by (cases "insert_ref n r e") auto
next
  case (In_leak i)
  then show ?thesis by (cases "insert_ref n r e") auto
qed

lemma all_ok_add_container:
  "all_ok (containers p) \<Longrightarrow> sizes_ok (dummy_son t) \<Longrightarrow>
   all_ok (containers (add_container t p)) \<and>
   length (containers (add_container t p)) = Suc (length (containers p))"
  by (simp add: add_container_def all_ok_snoc)

lemma all_ok_drop_newest:
  "all_ok (containers p) \<Longrightarrow> length (containers p) = Suc n \<Longrightarrow>
   all_ok (containers (drop_newest p)) \<and> length (containers (drop_newest p)) = n \<and>
   sizes_ok (dummy_son (newest p))"
  by (cases "containers p" rule: rev_cases)
     (auto simp: drop_newest_def newest_def all_ok_def)

text \<open>The end of \<^verbatim>\<open>split\<close>: the receiver moved out, or cut at its root.\<close>

lemma moved_out_ok:
  assumes "all_ok (containers p)" and "k < length (containers p)"
  shows "all_ok (containers (store (In_container k) (dummy_link Null) p)) \<and>
         sizes_ok (dummy_son (dummy_link (dummy_son (containers p ! k))))"
  using all_ok_nth [OF assms] all_ok_update [OF assms(1), of "dummy_link Null" k] by simp

lemma cut_ok:
  assumes "all_ok (containers p)" and "k < length (containers p)"
    and "dummy_son (containers p ! k) = Node a x l r s f"
  shows "all_ok (containers (store (In_container k)
           \<lparr>dummy_son = updateSubtreeSize (Node a x l Null s f), dummy_size = ds\<rparr> p)) \<and>
         sizes_ok r"
proof -
  from all_ok_nth [OF assms(1,2)] assms(3) have "sizes_ok l" "sizes_ok r" by simp_all
  then show ?thesis
    using all_ok_update [OF assms(1),
        of "\<lparr>dummy_son = updateSubtreeSize (Node a x l Null s f), dummy_size = ds\<rparr>" k]
    by simp
qed

lemma split_in_ok:
  assumes "all_ok (containers p)" and "k < length (containers p)"
  shows "outcomes_ok (length (containers p))
           (\<lambda>(p', new). all_ok (containers p') \<and>
              length (containers p') = length (containers p) \<and> sizes_ok (dummy_son new))
           (split_in k it p)"
proof (cases "resolve_in it p")
  case None
  then show ?thesis by (simp add: split_in_def)
next
  case (Some found)
  obtain pl r where res: "resolve_in it p = Some (pl, r)" using Some by (cases found) simp
  note f = resolve_in_fits [OF assms(1) res]
  show ?thesis
  proof (cases "dec_at pl r")
    case (Return prev)
    with dec_at_fits [OF f] have prev: "splayable pl prev" by simp
    show ?thesis
    proof (cases "splay_at prev")
      case (Return t)
      with splay_at_fits [OF prev] have "fits pl t" by simp
      note st = store_ok [OF assms(1) this]
      let ?p = "store pl t p"
      have k': "k < length (containers ?p)" using st assms(2) by simp
      show ?thesis
      proof (cases "dummy_son (containers ?p ! k)")
        case Null
        with res \<open>dec_at pl r = Return prev\<close> Return show ?thesis
          by (simp add: split_in_def Let_def)
      next
        case (Node a x l r' s f)
        from cut_ok [OF conjunct1 [OF st] k' Node, of "dummy_size (containers ?p ! k)"]
        have "all_ok (containers (store (In_container k)
                 \<lparr>dummy_son = updateSubtreeSize (Node a x l Null s f),
                    dummy_size = dummy_size (containers ?p ! k)\<rparr> ?p))" "sizes_ok r'"
          by simp_all
        with res \<open>dec_at pl r = Return prev\<close> Return Node st show ?thesis
          by (simp add: split_in_def Let_def)
      qed
    next
      case (Throw e t)
      with splay_at_fits [OF prev] have "fits pl t" by simp
      from store_ok [OF assms(1) this] res \<open>dec_at pl r = Return prev\<close> Throw show ?thesis
        by (simp add: split_in_def)
    next
      case (UB b)
      with res \<open>dec_at pl r = Return prev\<close> show ?thesis by (simp add: split_in_def)
    qed
  next
    case (Throw e t)
    with dec_at_fits [OF f] have "fits pl t" by simp
    note st = store_ok [OF assms(1) this]
    let ?p = "store pl t p"
    have k': "k < length (containers ?p)" using st assms(2) by simp
    from moved_out_ok [OF conjunct1 [OF st] k'] st res Throw show ?thesis
      by (cases e) (simp_all add: split_in_def swap_def empty_tree_def Let_def)
  next
    case (UB b)
    with res show ?thesis by (simp add: split_in_def)
  qed
qed

lemma insert_in_ok:
  assumes "all_ok (containers p)"
  shows "outcomes_ok (length (containers p))
           (\<lambda>(new, p'). all_ok (containers p') \<and> length (containers p') = length (containers p))
           (insert_in n it e p)"
proof (cases "resolve_in it p")
  case None
  then show ?thesis by (simp add: insert_in_def)
next
  case (Some found)
  obtain pl r where res: "resolve_in it p = Some (pl, r)" using Some by (cases found) simp
  note f = resolve_in_fits [OF assms res]
  show ?thesis
    using insert_ref_fits [OF f, of n e] res store_ok [OF assms, of pl]
    by (cases "insert_ref n r e") (auto simp: insert_in_def)
qed

lemma inc_in_ok:
  assumes "all_ok (containers p)"
  shows "outcomes_ok (length (containers p))
           (\<lambda>(it', p'). all_ok (containers p') \<and> length (containers p') = length (containers p))
           (inc_in it p)"
proof (cases "resolve_in it p")
  case None
  then show ?thesis by (simp add: inc_in_def)
next
  case (Some found)
  obtain pl r where res: "resolve_in it p = Some (pl, r)" using Some by (cases found) simp
  note f = resolve_in_fits [OF assms res]
  show ?thesis
    using inc_fits [OF f] res store_ok [OF assms, of pl]
    by (cases "inc r") (auto simp: inc_in_def split: option.splits)
qed

lemma dec_in_ok:
  assumes "all_ok (containers p)"
  shows "outcomes_ok (length (containers p))
           (\<lambda>(it', p'). all_ok (containers p') \<and> length (containers p') = length (containers p))
           (dec_in it p)"
proof (cases "resolve_in it p")
  case None
  then show ?thesis by (simp add: dec_in_def)
next
  case (Some found)
  obtain pl r where res: "resolve_in it p = Some (pl, r)" using Some by (cases found) simp
  note f = resolve_in_fits [OF assms res]
  show ?thesis
    using dec_at_fits [OF f] res store_ok [OF assms, of pl]
    by (cases "dec_at pl r") (auto simp: dec_in_def split: option.splits)
qed

lemma merge_self_ok:
  assumes "sizes_ok (dummy_son this)"
  shows "outcome_ok (\<lambda>(t', l). sizes_ok (dummy_son t')) (merge_self this)"
proof (cases "tree_empty this")
  case True
  with assms show ?thesis by (simp add: merge_self_def swap_def)
next
  case False
  have "outcome_ok (\<lambda>(t', l). sizes_ok (dummy_son t'))
     (case findNode (tree_size this - 1) this of
        Return p \<Rightarrow>
               (case splay (At p) of
                  Return c \<Rightarrow>
                    (case dummy_son (close c) of
                       Null \<Rightarrow> UB null_deref
                     | Node a x l r s f \<Rightarrow>
                         Return (\<lparr>dummy_son = Null, dummy_size = dummy_size (close c)\<rparr>,
                                 Some (Leak a x (dummy_link l))))
                | Throw e t \<Rightarrow> Throw e t
                | UB b \<Rightarrow> UB b)
      | Throw e t \<Rightarrow> Throw e t
      | UB b \<Rightarrow> UB b)"
  proof (rule outcome_ok_bind [OF findNode_ok [OF assms]], goal_cases)
    case (1 p)
    then show ?case
      by (intro outcome_ok_bind [OF splay_ok]) (auto split: tree.splits)
  qed
  with False show ?thesis by (simp add: merge_self_def)
qed

lemma erase_range_in_ok:
  assumes "all_ok (containers p)" and "k < length (containers p)"
  shows "outcomes_ok (length (containers p))
           (\<lambda>(it, p'). all_ok (containers p') \<and> length (containers p') = length (containers p))
           (erase_range_in k first last' p)"
proof (cases "resolve_in first p")
  case None
  then show ?thesis by (simp add: erase_range_in_def)
next
  case (Some found)
  let ?n = "length (containers p)"
  show ?thesis
  proof (cases "split_in k last' p")
    case (Return x)
    obtain p1 right where x: "x = (p1, right)" by (cases x)
    with Return split_in_ok [OF assms, of last'] have
      p1: "all_ok (containers p1)" "length (containers p1) = ?n" "sizes_ok (dummy_son right)"
      by simp_all
    let ?p = "add_container right p1"
    from all_ok_add_container [OF p1(1,3)] p1(2) have
      ok1: "all_ok (containers ?p)" and len1: "length (containers ?p) = Suc ?n" by simp_all
    have k1: "k < length (containers ?p)" using assms(2) len1 by simp
    show ?thesis
    proof (cases "split_in k first ?p")
      case (Return y)
      obtain p2 erased where y: "y = (p2, erased)" by (cases y)
      with Return split_in_ok [OF ok1 k1, of first] len1 have
        p2: "all_ok (containers p2)" "length (containers p2) = Suc ?n" by simp_all
      have k2: "k < length (containers p2)" using assms(2) p2(2) by simp
      from all_ok_drop_newest [OF p2] have
        bl: "all_ok (containers (drop_newest p2))"
            "length (containers (drop_newest p2)) = ?n"
            "sizes_ok (dummy_son (newest p2))"
        by simp_all
      note m = merge_ok [OF all_ok_nth [OF p2(1) k2] bl(3)]
      have "outcomes_ok ?n
        (\<lambda>(it, p'). all_ok (containers p') \<and> length (containers p') = ?n)
        (case merge (containers p2 ! k) (newest p2) of
                       Throw e t' \<Rightarrow> Throw e (store (In_container k) t' (drop_newest p2))
                     | UB b \<Rightarrow> UB b
                     | Return (t3, right') \<Rightarrow>
                         (let p3 = store (In_container k) t3 (drop_newest p2)
                          in case dummy_son t3 of
                               Null \<Rightarrow> Return (Sentinel_of k, p3)
                             | Node a x l r s f \<Rightarrow>
                                 (case r of
                                    Null \<Rightarrow> Return (Sentinel_of k, p3)
                                  | Node a' x' l' r' s' f' \<Rightarrow> Return (Node_at a', p3))))"
        using m bl(1,2)
        by (cases "merge (containers p2 ! k) (newest p2)")
           (auto simp: Let_def split: tree.splits intro: all_ok_update)
      with Some \<open>split_in k last' p = Return x\<close> x Return y show ?thesis
        by (simp add: erase_range_in_def)
    next
      case (Throw e p')
      with split_in_ok [OF ok1 k1, of first] len1 have
        "all_ok (containers p')" "length (containers p') = Suc ?n" by simp_all
      from all_ok_drop_newest [OF this] Some \<open>split_in k last' p = Return x\<close> x Throw
      show ?thesis by (simp add: erase_range_in_def)
    next
      case (UB b)
      with Some \<open>split_in k last' p = Return x\<close> x show ?thesis
        by (simp add: erase_range_in_def)
    qed
  next
    case (Throw e p')
    with split_in_ok [OF assms, of last'] Some show ?thesis
      by (simp add: erase_range_in_def)
  next
    case (UB b)
    with Some show ?thesis by (simp add: erase_range_in_def)
  qed
qed

lemma erase_in_ok:
  assumes "all_ok (containers p)" and "k < length (containers p)"
  shows "outcomes_ok (length (containers p))
           (\<lambda>(it, p'). all_ok (containers p') \<and> length (containers p') = length (containers p))
           (erase_in k pos p)"
proof (cases "inc_in pos p")
  case (Return x)
  obtain it' p' where x: "x = (it', p')" by (cases x)
  with Return inc_in_ok [OF assms(1), of pos] have
    p': "all_ok (containers p')" "length (containers p') = length (containers p)"
    by simp_all
  from erase_range_in_ok [OF p'(1), of k pos it'] assms(2) p'(2) Return x show ?thesis
    by (simp add: erase_in_def)
next
  case (Throw e p')
  with inc_in_ok [OF assms(1), of pos] show ?thesis by (simp add: erase_in_def)
next
  case (UB b)
  then show ?thesis by (simp add: erase_in_def)
qed

lemma alone_ok:
  "outcomes_ok (Suc 0) (\<lambda>(it, p'). all_ok (containers p') \<and> length (containers p') = Suc 0) out \<Longrightarrow>
   outcome_ok (\<lambda>(it, t'). sizes_ok (dummy_son t')) (alone out)"
  by (cases out) (auto simp: all_ok_def length_Suc_conv)

lemma erase_range_ok:
  assumes "sizes_ok (dummy_son t)"
  shows "outcome_ok (\<lambda>(it, t'). sizes_ok (dummy_son t')) (erase_range first last' t)"
  unfolding erase_range_def
  using erase_range_in_ok [of "only t" 0 "own first" "own last'"] assms
  by (intro alone_ok) (simp add: all_ok_def only_def)

lemma erase_ok:
  assumes "sizes_ok (dummy_son t)"
  shows "outcome_ok (\<lambda>(it, t'). sizes_ok (dummy_son t')) (erase pos t)"
  unfolding erase_def
  using erase_in_ok [of "only t" 0 "own pos"] assms
  by (intro alone_ok) (simp add: all_ok_def only_def)

lemma after_iterator_call_ok:
  "outcomes_ok n (\<lambda>(x, p'). all_ok (containers p') \<and> length (containers p') = n) out \<Longrightarrow>
   after_iterator_call out = Some p' \<Longrightarrow> all_ok (containers p')"
  by (cases out) auto

lemma after_split_in_ok:
  "outcomes_ok n (\<lambda>(p', new). all_ok (containers p') \<and> length (containers p') = n \<and>
      sizes_ok (dummy_son new)) out \<Longrightarrow>
   after_split_in out = Some p' \<Longrightarrow> all_ok (containers p')"
  by (cases out) (auto simp: all_ok_add_container)

lemma after_merge_self_ok:
  "all_ok (containers p) \<Longrightarrow> outcome_ok (\<lambda>(t', l). sizes_ok (dummy_son t')) out \<Longrightarrow>
   after_merge_self k p out = Some p' \<Longrightarrow> all_ok (containers p')"
  by (cases "(k, p, out)" rule: after_merge_self.cases) (auto intro: all_ok_update)

lemma with_containers_ok:
  "with_containers p out = Some p' \<Longrightarrow> \<exists>ts. out = Some ts \<and> containers p' = ts"
  by (cases out) auto

text \<open>
  On an iterator of the receiver the calls on a program are the calls on a single
  container.
\<close>

lemma resolve_in_own:
  "resolve it t = Some r \<Longrightarrow> resolve_in (own it) (only t) = Some (In_container 0, r)"
  by (cases it) (auto simp: only_def split: option.splits)

lemma split_in_own:
  assumes "resolve it t = Some r"
  shows "split_in 0 (own it) (only t) =
           (case split_it it t of
              Return (t', new) \<Rightarrow> Return (only t', new)
            | Throw e t' \<Rightarrow> Throw e (only t')
            | UB b \<Rightarrow> UB b)"
  using assms resolve_in_own [OF assms]
  by (auto simp: split_in_def split_it_def split_ref_def Let_def swap_def only_def
           split: outcome.splits exn.splits tree.splits)

lemma insert_in_own:
  assumes "resolve it t = Some r"
  shows "insert_in n (own it) e (only t) =
           (case insert_it n it e t of
              Return (new, t') \<Rightarrow> Return (own new, only t')
            | Throw ex t' \<Rightarrow> Throw ex (only t')
            | UB b \<Rightarrow> UB b)"
  using assms resolve_in_own [OF assms]
  by (auto simp: insert_in_def insert_it_def insert_ref_def only_def split: outcome.splits)

section \<open>The size invariant under runs of calls\<close>

lemma exec_ok:
  assumes "all_ok (containers p)" and "exec c p = Some p'"
  shows "all_ok (containers p')"
proof (cases c)
  case Construct_empty
  with assms show ?thesis by (auto simp: all_ok_add_container empty_tree_def)
next
  case (Construct xs)
  with assms show ?thesis by (auto simp: all_ok_add_container SplayTree_from_ok)
next
  case (Call_at k i)
  with assms(2) have k: "k < length (containers p)"
    and r: "after_call k (containers p) (at i (containers p ! k)) = Some (containers p')"
    by (auto split: if_splits dest: with_containers_ok)
  show ?thesis
    by (rule after_call_ok [OF assms(1) at_ok [OF all_ok_nth [OF assms(1) k]] r])
next
  case (Call_at_const k i)
  with assms(2) have k: "k < length (containers p)"
    and r: "after_call k (containers p) (at_const i (containers p ! k)) = Some (containers p')"
    by (auto split: if_splits dest: with_containers_ok)
  show ?thesis
    by (rule after_call_ok [OF assms(1) at_const_ok [OF all_ok_nth [OF assms(1) k]] r])
next
  case (Call_insert k n it e)
  with assms(2) have r: "after_iterator_call (insert_in n it e p) = Some p'"
    by (simp_all split: if_splits)
  show ?thesis
    by (rule after_iterator_call_ok [OF insert_in_ok [OF assms(1)] r])
next
  case (Call_erase k pos)
  with assms(2) have k: "k < length (containers p)"
    and r: "after_iterator_call (erase_in k pos p) = Some p'"
    by (simp_all split: if_splits)
  show ?thesis
    by (rule after_iterator_call_ok [OF erase_in_ok [OF assms(1) k] r])
next
  case (Call_erase_range k first last')
  with assms(2) have k: "k < length (containers p)"
    and r: "after_iterator_call (erase_range_in k first last' p) = Some p'"
    by (simp_all split: if_splits)
  show ?thesis
    by (rule after_iterator_call_ok [OF erase_range_in_ok [OF assms(1) k] r])
next
  case (Call_split k i)
  with assms(2) have k: "k < length (containers p)"
    and r: "after_split k (containers p) (split i (containers p ! k)) = Some (containers p')"
    by (auto split: if_splits dest: with_containers_ok)
  show ?thesis
    by (rule after_split_ok [OF assms(1) split_ok [OF all_ok_nth [OF assms(1) k]] r])
next
  case (Call_split_it k it)
  with assms(2) have k: "k < length (containers p)"
    and r: "after_split_in (split_in k it p) = Some p'"
    by (simp_all split: if_splits)
  show ?thesis
    by (rule after_split_in_ok [OF split_in_ok [OF assms(1) k] r])
next
  case (Call_merge k j)
  with assms(2) have k: "k < length (containers p)" and j: "j < length (containers p)"
    by (simp_all split: if_splits)
  show ?thesis
  proof (cases "k = j")
    case True
    with Call_merge assms(2) k have
      r: "after_merge_self k p (merge_self (containers p ! k)) = Some p'"
      by simp
    show ?thesis
      by (rule after_merge_self_ok
            [OF assms(1) merge_self_ok [OF all_ok_nth [OF assms(1) k]] r])
  next
    case False
    with Call_merge assms(2) k j have
      r: "after_merge k j (containers p) (merge (containers p ! k) (containers p ! j)) =
            Some (containers p')"
      by (auto dest: with_containers_ok)
    show ?thesis
      by (rule after_merge_ok [OF assms(1)
            merge_ok [OF all_ok_nth [OF assms(1) k] all_ok_nth [OF assms(1) j]] r])
  qed
next
  case (Call_reverse k first last')
  with assms(2) have k: "k < length (containers p)"
    and r: "after_reverse k (containers p) (reverse first last' (containers p ! k)) =
              Some (containers p')"
    by (auto split: if_splits dest: with_containers_ok)
  show ?thesis
    by (rule after_reverse_ok [OF assms(1) reverse_ok [OF all_ok_nth [OF assms(1) k]] r])
next
  case (Call_swap k j)
  with assms(2) have k: "k < length (containers p)" and j: "j < length (containers p)"
    and r: "containers p' = (containers p)[k := dummy_link (dummy_son (containers p ! j)),
                                           j := dummy_link (dummy_son (containers p ! k))]"
    by (auto simp: swap_def split: if_splits)
  show ?thesis
    unfolding r
    using all_ok_nth [OF assms(1) k] all_ok_nth [OF assms(1) j]
    by (intro all_ok_update assms(1)) simp_all
next
  case (Call_begin k)
  with assms(2) have k: "k < length (containers p)"
    and r: "after_call k (containers p) (begin_it (containers p ! k)) = Some (containers p')"
    by (auto split: if_splits dest: with_containers_ok)
  show ?thesis
    by (rule after_call_ok [OF assms(1) begin_it_ok [OF all_ok_nth [OF assms(1) k]] r])
next
  case (Call_inc it)
  with assms(2) have r: "after_iterator_call (inc_in it p) = Some p'" by simp
  show ?thesis
    by (rule after_iterator_call_ok [OF inc_in_ok [OF assms(1)] r])
next
  case (Call_dec it)
  with assms(2) have r: "after_iterator_call (dec_in it p) = Some p'" by simp
  show ?thesis
    by (rule after_iterator_call_ok [OF dec_in_ok [OF assms(1)] r])
qed

lemma run_ok: "all_ok (containers p) \<Longrightarrow> run cs p = Some p' \<Longrightarrow> all_ok (containers p')"
  by (induction cs arbitrary: p) (auto split: option.splits dest: exec_ok)

lemma run_example_calls:
  "run example_calls no_objects =
     Some \<lparr>containers =
             [\<lparr>dummy_son = Null, dummy_size = 1\<rparr>, \<lparr>dummy_son = Null, dummy_size = 1\<rparr>,
              \<lparr>dummy_son = Null, dummy_size = 3\<rparr>, \<lparr>dummy_son = Null, dummy_size = 1\<rparr>,
              \<lparr>dummy_son = Null, dummy_size = 1\<rparr>, \<lparr>dummy_son = Null, dummy_size = 1\<rparr>,
              \<lparr>dummy_son =
                 Node 21 7 (Node 30 50 (Node 20 6 Null Null 1 False) Null 2 False)
                   (Node 22 8 Null (Node 23 9 Null Null 1 False) 2 False) 5 False,
               dummy_size = 6\<rparr>],
           leaks =
             [Leak 0 1
                \<lparr>dummy_son = Node 1 2 Null (Node 40 60 Null Null 1 False) 2 False,
                   dummy_size = 3\<rparr>]\<rparr>"
  by code_simp

text \<open>
  The sentinel's own counter is outside the invariant: \<^verbatim>\<open>split\<close> and \<^verbatim>\<open>merge\<close> recompute
  the root's counter and leave \<^verbatim>\<open>dummy_.subtree_size_\<close> as it was. No code reads it.
\<close>

lemma sentinel_counter_stale_after_split:
  "(case split 1 (of_list [1, 2, 3 :: nat]) of
      Return (t, new) \<Rightarrow> contents t = [1] \<and> tree_size t = 1 \<and> dummy_size t = 4
    | Throw e t \<Rightarrow> False
    | UB b \<Rightarrow> False)"
  by code_simp

section \<open>Frames and pushes, addresses and iterators\<close>

lemma push_dad_is_push:
  "push_dad v t = (v', t') \<Longrightarrow> attach v' t' = push (attach v t)"
  by (cases v) (auto split: if_splits)

lemma push_granddad_is_push:
  "push_granddad w v = (w', v') \<Longrightarrow> attach w' (attach v' t) = push (attach w (attach v t))"
  by (cases w; cases v) (auto split: if_splits)

lemma locate_absent: "n \<notin> addrs t \<Longrightarrow> locate n t path = None"
  by (induction t arbitrary: path) auto

lemma locate_plug_inside:
  "n \<notin> frame_addrs path \<Longrightarrow> locate n (plug t path) acc = locate n t (path @ acc)"
proof (induction path arbitrary: t)
  case Nil
  then show ?case by simp
next
  case (Cons v path)
  obtain d a x other s f where v: "v = Frame d a x other s f" by (cases v)
  from Cons.prems v have n: "n \<noteq> a" "n \<notin> addrs other" "n \<notin> frame_addrs path" by auto
  have "locate n (plug t (v # path)) acc = locate n (attach v t) (path @ acc)"
    using Cons.IH [OF n(3)] by simp
  also have "\<dots> = locate n t ((v # path) @ acc)"
    using n v by (cases d) (auto simp: locate_absent split: option.splits)
  finally show ?case .
qed

lemma resolve_iterator:
  assumes "focus c = Node n x l r s f" and "n \<notin> frame_addrs (dads c)"
  shows "resolve (It n) (close c) = Some (At c)"
proof -
  obtain t path ds where c: "c = Cursor t path ds" by (cases c)
  with assms show ?thesis by (simp add: locate_plug_inside)
qed

section \<open>findNode past the last element\<close>

lemma findNode_loop_past_the_end:
  "sizes_ok (focus p) \<Longrightarrow> cumulated + ssize (focus p) \<le> i \<Longrightarrow>
   findNode_loop i cumulated p = UB null_deref"
proof (induction i cumulated p rule: findNode_loop.induct)
  case (1 i cumulated p)
  show ?case
  proof (cases "focus p")
    case Null
    then show ?thesis by (subst findNode_loop.simps) simp
  next
    case (Node a x l r s f)
    obtain t path ds where p: "p = Cursor t path ds" by (cases p)
    define l' where "l' = (if f then toggle r else l)"
    define r' where "r' = (if f then toggle l else r)"
    have pt: "push_focus p = Cursor (Node a x l' r' s False) path ds"
      using p Node by (simp add: l'_def r'_def)
    have ok: "sizes_ok r'" "s = 1 + ssize l' + ssize r'"
      using "1.prems"(1) Node by (auto simp: l'_def r'_def)
    let ?index = "cumulated + leftSubtreeSize (focus (push_focus p))"
    have idx: "?index = cumulated + ssize l'" by (simp add: pt)
    have far: "?index \<noteq> i" "\<not> i < ?index"
      using "1.prems"(2) Node ok idx by simp_all
    have dn: "focus (down True (push_focus p)) = r'" by (simp add: pt)
    have "findNode_loop i (?index + 1) (down True (push_focus p)) = UB null_deref"
      using "1.prems"(2) Node ok idx
      by (intro "1.IH"(2) [OF Node refl refl far]) (simp_all add: dn)
    with far Node show ?thesis
      by (subst findNode_loop.simps) (simp add: Let_def)
  qed
qed

lemma split_at_size_always_null_deref:
  "sizes_ok (dummy_son t) \<Longrightarrow> split (tree_size t) t = UB null_deref"
  using findNode_loop_past_the_end [of "root t" 0 "tree_size t"]
  by (simp add: split_def findNode_def root_def tree_size_def)

section \<open>The scenarios of the specification\<close>

lemma scenario_reverse_split_merge_at:
  "(case reverse 1 4 (of_list [1, 2, 3, 4, 5 :: nat]) of
      Return t \<Rightarrow>
        contents t = [1, 4, 3, 2, 5] \<and>
        (case split 2 t of
           Return (left, right) \<Rightarrow>
             contents left = [1, 4] \<and> contents right = [3, 2, 5] \<and>
             (case merge right left of
                Return (merged, rest) \<Rightarrow>
                  contents merged = [3, 2, 5, 1, 4] \<and> contents rest = [] \<and>
                  (case at 0 merged of
                     Return (x, t') \<Rightarrow> x = 3 \<and> contents t' = [3, 2, 5, 1, 4]
                   | Throw e t' \<Rightarrow> False
                   | UB b \<Rightarrow> False)
              | Throw e t' \<Rightarrow> False
              | UB b \<Rightarrow> False)
         | Throw e t' \<Rightarrow> False
         | UB b \<Rightarrow> False)
    | Throw e t' \<Rightarrow> False
    | UB b \<Rightarrow> False)"
  by code_simp

lemma scenario_insert_erase:
  "(case insert_it 10 (It 2) 99 (of_list [1, 2, 3 :: nat]) of
      Return (it, t) \<Rightarrow>
        contents t = [1, 2, 99, 3] \<and> deref it t = Some 99 \<and>
        (case erase_range (It 1) (It 2) t of
           Return (it', t') \<Rightarrow> contents t' = [1, 3] \<and> deref it' t' = Some 3
         | Throw e t' \<Rightarrow> False
         | UB b \<Rightarrow> False)
    | Throw e t' \<Rightarrow> False
    | UB b \<Rightarrow> False)"
  by code_simp

lemma scenario_split_boundaries:
  "(case split 0 (of_list [1, 2, 3 :: nat]) of
      Return (t, new) \<Rightarrow> contents t = [] \<and> contents new = [1, 2, 3]
    | Throw e t' \<Rightarrow> False
    | UB b \<Rightarrow> False) \<and>
   (case split_it End (of_list [1, 2, 3 :: nat]) of
      Return (t, new) \<Rightarrow> contents t = [1, 2, 3] \<and> contents new = []
    | Throw e t' \<Rightarrow> False
    | UB b \<Rightarrow> False) \<and>
   (case split_then_merge 1 (of_list [7, 8 :: nat]) of
      Return (t, r) \<Rightarrow> contents t = [7, 8] \<and> contents r = []
    | Throw e t' \<Rightarrow> False
    | UB b \<Rightarrow> False)"
  by code_simp

text \<open>
  \<^verbatim>\<open>erase\<close> of the second of seven elements: the left part is not empty, and the iterator
  returned is on the element 3, not on the element 2 that followed the erased one.
\<close>

lemma scenario_erase_second_of_seven:
  "(case erase (It 1) (of_list [0, 1, 2, 3, 4, 5, 6 :: nat]) of
      Return (it, t) \<Rightarrow> contents t = [0, 2, 3, 4, 5, 6] \<and> deref it t = Some 3
    | Throw e t \<Rightarrow> False
    | UB b \<Rightarrow> False)"
  by code_simp

section \<open>Iterators that leave the receiver, and merge with itself\<close>

text \<open>
  \<^verbatim>\<open>erase(it, it)\<close> on \<open>[1, 2, 3]\<close> with \<open>it\<close> on the element 2. \<^verbatim>\<open>split(last)\<close> leaves
  \<open>[1]\<close> in the receiver and \<open>[2, 3]\<close> in \<open>right\<close>; in \<^verbatim>\<open>split(first)\<close> the decrement starts
  at the root of \<open>right\<close> and throws, so the receiver is moved out and destroyed; \<^verbatim>\<open>merge\<close>
  takes \<open>right\<close>. The call returns with the element before \<open>it\<close> erased.
\<close>

lemma erase_same_iterator:
  "(case erase_range (It 1) (It 1) (of_list [1, 2, 3 :: nat]) of
      Return (it, t) \<Rightarrow> it = It 2 \<and> contents t = [2, 3] \<and> deref it t = Some 3
    | Throw e t \<Rightarrow> False
    | UB b \<Rightarrow> False)"
  by code_simp

text \<open>
  \<open>first\<close> after \<open>last\<close>: with \<open>last\<close> on the second of four elements nothing is erased, the
  second \<^verbatim>\<open>split\<close> cutting at a root that has no right son; with \<open>last\<close> on the first
  element the receiver is empty at the second \<^verbatim>\<open>split\<close>, whose \<^verbatim>\<open>root()\<close> is a null
  pointer.
\<close>

lemma erase_first_after_last:
  "(case erase_range (It 3) (It 1) (of_list [1, 2, 3, 4 :: nat]) of
      Return (it, t) \<Rightarrow> it = It 2 \<and> contents t = [1, 2, 3, 4]
    | Throw e t \<Rightarrow> False
    | UB b \<Rightarrow> False) \<and>
   erase_range (It 1) (It 0) (of_list [1, 2, 3 :: nat]) = UB null_deref"
  by code_simp

text \<open>
  Two containers \<open>[1, 2, 3]\<close> and \<open>[4, 5, 6]\<close>. \<^verbatim>\<open>split\<close> called on the first with an iterator
  on the element 5 of the second splays the element 4 in the second and cuts the first at
  its own root, the element 2. \<^verbatim>\<open>insert\<close> called on the first with the same iterator
  inserts into the second.
\<close>

lemma split_and_insert_at_iterator_of_another_container:
  "(case run [Construct (zip [0 ..< 3] [1, 2, 3 :: nat]), Construct (zip [3 ..< 6] [4, 5, 6]),
              Call_split_it 0 (Node_at 4), Call_insert 0 9 (Node_at 4) 7] no_objects of
      Some p \<Rightarrow> map contents (containers p) = [[1, 2], [4, 7, 5, 6], [3]] \<and> leaks p = []
    | None \<Rightarrow> False)"
  by code_simp

text \<open>
  \<^verbatim>\<open>t.merge(std::move(t))\<close> on \<open>[1, 2, 3]\<close>: the container is empty afterwards, with the
  sentinel's counter still 4, and goes on being used. The nodes are leaked below the node of
  the element 3, which was the root.
\<close>

lemma merge_with_itself:
  "run [Construct (zip [0 ..< 3] [1, 2, 3 :: nat]), Call_merge 0 0] no_objects =
     Some \<lparr>containers = [\<lparr>dummy_son = Null, dummy_size = 4\<rparr>],
           leaks = [Leak 2 3 \<lparr>dummy_son = Node 1 2 (Node 0 1 Null Null 1 False) Null 2 False,
                               dummy_size = 3\<rparr>]\<rparr> \<and>
   (case run [Construct (zip [0 ..< 3] [1, 2, 3 :: nat]), Call_merge 0 0,
              Call_insert 0 7 (Sentinel_of 0) 4] no_objects of
      Some p \<Rightarrow> map contents (containers p) = [[4]]
    | None \<Rightarrow> False)"
  by code_simp

text \<open>
  Iterators to leaked nodes. After \<^verbatim>\<open>t.merge(std::move(t))\<close> on \<open>[1]\<close> the node of the
  element 1 is a leaked root with no son: \<^verbatim>\<open>--it\<close> returns, \<^verbatim>\<open>++it\<close> throws, and
  \<^verbatim>\<open>u.split(it)\<close> on another container \<open>u = [1, 2, 3]\<close>, whose root is the element 2 after
  \<^verbatim>\<open>u.at(1)\<close>, cuts \<open>u\<close> at its root. \<^verbatim>\<open>u.insert(it, 5)\<close> then links a node below the
  leaked root, and \<open>u\<close> stays as it is.
\<close>

lemma calls_at_leaked_nodes:
  "(case run [Construct (zip [0 ..< 1] [1 :: nat]), Call_merge 0 0, Call_dec (Node_at 0),
              Call_inc (Node_at 0), Construct (zip [5 ..< 8] [1, 2, 3]), Call_at 1 1,
              Call_split_it 1 (Node_at 0), Call_insert 1 9 (Node_at 0) 5,
              Call_inc (Node_at 9), Call_dec (Node_at 9)] no_objects of
      Some p \<Rightarrow>
        map contents (containers p) = [[], [1, 2], [3]] \<and>
        map (contents \<circ> leak_tree) (leaks p) = [[5]]
    | None \<Rightarrow> False)"
  by code_simp

section \<open>The place of a node under splay, findNode and operator--\<close>

lemma wrap_lift_place:
  "lift_place v (pre, post) = (pre', post') \<Longrightarrow> wrap v (pre @ x # post) = pre' @ x # post'"
  by (cases v) (auto simp: Let_def split: if_splits)

lemma wraps_lift_places:
  "lift_places path (pre, post) = (pre', post') \<Longrightarrow>
   wraps path (pre @ x # post) = pre' @ x # post'"
proof (induction path arbitrary: pre post)
  case Nil
  then show ?case by simp
next
  case (Cons v path)
  obtain p1 p2 where l: "lift_place v (pre, post) = (p1, p2)" by (cases "lift_place v (pre, post)")
  with Cons.prems have "lift_places path (p1, p2) = (pre', post')" by simp
  from Cons.IH [OF this] wrap_lift_place [OF l] show ?case by simp
qed

lemma seq_own_place:
  "t = Node a x l r s f \<Longrightarrow> seq t = fst (own_place t) @ x # snd (own_place t)"
  by auto

lemma contents_place:
  assumes "focus c = Node a x l r s f"
  shows "contents (close c) = fst (place c) @ x # snd (place c)"
proof -
  obtain t path ds where c: "c = Cursor t path ds" by (cases c)
  obtain pre post where o: "own_place t = (pre, post)" by (cases "own_place t")
  obtain pre' post' where l: "lift_places path (pre, post) = (pre', post')"
    by (cases "lift_places path (pre, post)")
  have "seq t = pre @ x # post" using assms c o seq_own_place [of t a x l r s f] by simp
  with wraps_lift_places [OF l, of x] c o l show ?thesis
    by (simp add: contents_def seq_plug place_def)
qed

lemma own_place_push [simp]: "own_place (push t) = own_place t"
  by (cases t) auto

lemma lift_places_update_above:
  "update_above u path ds = (path', ds') \<Longrightarrow> lift_places path' pp = lift_places path pp"
  by (induction u path ds rule: update_above.induct; cases pp) (auto simp: Let_def)

lemma splay_step_place:
  assumes "splay_step c = Return c'" and "focus c \<noteq> Null"
  shows "place c' = place c"
proof (cases c rule: splay_step.cases)
  case (1 u ds)
  with assms show ?thesis by auto
next
  case (2 u v ds)
  with assms show ?thesis
    by (cases u; cases v)
       (auto simp: place_def Let_def split: prod.splits if_splits)
next
  case (3 u v w path ds)
  with assms show ?thesis
    by (cases u; cases v; cases w)
       (auto simp: place_def Let_def lift_places_update_above split: prod.splits if_splits)
qed

lemma splay_step_flag:
  assumes "splay_step c = Return c'" and "focus c \<noteq> Null" and "dads c \<noteq> []"
  shows "\<not> reverse_flag (focus c')"
proof (cases c rule: splay_step.cases)
  case (1 u ds)
  with assms show ?thesis by auto
next
  case (2 u v ds)
  with assms show ?thesis
    by (cases u; cases v)
       (auto simp: Let_def split: prod.splits if_splits)
next
  case (3 u v w path ds)
  with assms show ?thesis
    by (cases u; cases v; cases w)
       (auto simp: Let_def split: prod.splits if_splits)
qed

lemma splay_loop_place:
  assumes "focus c \<noteq> Null"
  shows "\<exists>c'. splay_loop c = Return c' \<and> place c' = place c \<and>
           (\<not> reverse_flag (focus c) \<longrightarrow> \<not> reverse_flag (focus c'))"
  using assms
proof (induction c rule: splay_loop.induct)
  case (1 u)
  show ?case
  proof (cases "dads u")
    case Nil
    then have "splay_loop u = Return u"
      by (subst splay_loop.simps) simp
    then show ?thesis by simp
  next
    case (Cons v path)
    obtain u' where step: "splay_step u = Return u'" and nn: "focus u' \<noteq> Null"
      using splay_step_returns [OF 1(2)] by blast
    from 1(1) [OF Cons step nn] obtain c' where
      c': "splay_loop u' = Return c'" "place c' = place u'"
        "\<not> reverse_flag (focus u') \<longrightarrow> \<not> reverse_flag (focus c')"
      by blast
    have "splay_loop u = Return c'"
      using Cons step c'(1) by (subst splay_loop.simps) simp
    moreover have "place c' = place u"
      using c'(2) splay_step_place [OF step 1(2)] by simp
    moreover have "\<not> reverse_flag (focus c')"
      using c'(3) splay_step_flag [OF step 1(2)] Cons by simp
    ultimately show ?thesis by simp
  qed
qed

text \<open>
  After \<^verbatim>\<open>splay\<close> of a node whose flag is clear the node is the root, its flag is clear, and
  its sons hold what was before and after it.
\<close>

lemma splay_root:
  assumes "focus p = Node a x l r s False"
  shows "\<exists>n l' r' s' ds. splay (At p) = Return (Cursor (Node n x l' r' s' False) [] ds) \<and>
           seq l' = fst (place p) \<and> seq r' = snd (place p) \<and>
           (near_ok p \<longrightarrow> sizes_ok (Node n x l' r' s' False))"
proof -
  have nn: "focus p \<noteq> Null" using assms by simp
  from splay_loop_correct [OF nn] obtain c where
    c: "splay_loop p = Return c" "dads c = []" "focus c \<noteq> Null"
       "data (focus c) = data (focus p)" "near_ok p \<longrightarrow> sizes_ok (focus c)"
    by blast
  from splay_loop_place [OF nn] c(1) assms have
    pl: "place c = place p" "\<not> reverse_flag (focus c)"
    by auto
  obtain u ds where cc: "c = Cursor u [] ds" using c(2) by (cases c) auto
  with c(3) pl(2) obtain n y l' r' s' where u: "u = Node n y l' r' s' False"
    by (cases u) auto
  have "y = x" using c(4) cc u assms by simp
  moreover have "place p = (seq l', seq r')"
    using pl(1) cc u by (simp add: place_def)
  moreover have "splay (At p) = Return (Cursor u [] ds)"
    using c(1) cc by simp
  moreover have "near_ok p \<longrightarrow> sizes_ok u"
    using c(5) cc by simp
  ultimately show ?thesis
    unfolding u by (intro exI conjI) (assumption | simp)+
qed

lemma lift_places_append:
  "lift_places (q @ q') pp = lift_places q' (lift_places q pp)"
  by (induction q arbitrary: pp) auto

lemma clean_append [simp]: "clean (q @ q') = (clean q \<and> clean q')"
  by (induction q) auto

lemma findNode_loop_place:
  "findNode_loop i cumulated p = Return p' \<Longrightarrow> sizes_ok (focus p) \<Longrightarrow>
   cumulated \<le> i \<Longrightarrow> i < cumulated + ssize (focus p) \<Longrightarrow>
   \<exists>q. dads p' = q @ dads p \<and> clean q \<and> \<not> reverse_flag (focus p') \<and>
       length (fst (lift_places q (own_place (focus p')))) = i - cumulated"
proof (induction i cumulated p rule: findNode_loop.induct)
  case (1 i cumulated p)
  obtain t path ds where p: "p = Cursor t path ds" by (cases p)
  with "1.prems" obtain a x l r s f where t: "t = Node a x l r s f" by (cases t) auto
  define l' where "l' = (if f then toggle r else l)"
  define r' where "r' = (if f then toggle l else r)"
  have pt: "push t = Node a x l' r' s False" by (simp add: t l'_def r'_def)
  have ok: "sizes_ok l'" "sizes_ok r'" "s = 1 + ssize l' + ssize r'"
    using "1.prems"(2) p t by (auto simp: l'_def r'_def)
  have len: "length (seq l') = ssize l'"
    using ok by (simp add: ssize_length)
  have fp: "focus p = Node a x l r s f" by (simp add: p t)
  let ?p = "push_focus p"
  let ?index = "cumulated + leftSubtreeSize (focus ?p)"
  have idx: "?index = cumulated + ssize l'" by (simp add: p pt)
  consider (found) "?index = i" | (left) "?index \<noteq> i" "i < ?index"
    | (right) "?index \<noteq> i" "\<not> i < ?index" by blast
  then show ?case
  proof cases
    case found
    with "1.prems"(1) fp have "p' = ?p"
      by (subst (asm) findNode_loop.simps) (simp add: Let_def)
    then show ?thesis
      using found idx len p pt by (intro exI [of _ "[]"]) simp
  next
    case left
    let ?fr = "Frame False a x r' s False"
    have dn: "down False ?p = Cursor l' (?fr # path) ds" by (simp add: p pt)
    from left "1.prems"(1) fp have r: "findNode_loop i cumulated (down False ?p) = Return p'"
      by (subst (asm) findNode_loop.simps) (simp add: Let_def)
    have "\<exists>q. dads p' = q @ dads (down False ?p) \<and> clean q \<and> \<not> reverse_flag (focus p') \<and>
       length (fst (lift_places q (own_place (focus p')))) = i - cumulated"
      using left idx ok "1.prems"(3)
      by (intro "1.IH"(1) [OF fp refl refl left r]) (simp_all add: dn)
    then obtain q where q: "dads p' = q @ ?fr # path" "clean q" "\<not> reverse_flag (focus p')"
      "length (fst (lift_places q (own_place (focus p')))) = i - cumulated"
      by (auto simp: dn)
    obtain pre post where pp: "lift_places q (own_place (focus p')) = (pre, post)"
      by (cases "lift_places q (own_place (focus p'))")
    show ?thesis
      using q pp p by (intro exI [of _ "q @ [?fr]"]) (simp add: lift_places_append)
  next
    case right
    let ?fr = "Frame True a x l' s False"
    have dn: "down True ?p = Cursor r' (?fr # path) ds" by (simp add: p pt)
    from right "1.prems"(1) fp have r: "findNode_loop i (?index + 1) (down True ?p) = Return p'"
      by (subst (asm) findNode_loop.simps) (simp add: Let_def)
    have bound: "i < ?index + 1 + ssize r'"
      using "1.prems"(4) p t ok(3) idx by simp
    have ge: "?index + 1 \<le> i" using right by simp
    have "\<exists>q. dads p' = q @ dads (down True ?p) \<and> clean q \<and> \<not> reverse_flag (focus p') \<and>
       length (fst (lift_places q (own_place (focus p')))) = i - (?index + 1)"
      using ok bound ge
      by (intro "1.IH"(2) [OF fp refl refl right r]) (simp_all add: dn)
    then obtain q where q: "dads p' = q @ ?fr # path" "clean q" "\<not> reverse_flag (focus p')"
      "length (fst (lift_places q (own_place (focus p')))) = i - (?index + 1)"
      by (auto simp: dn)
    obtain pre post where pp: "lift_places q (own_place (focus p')) = (pre, post)"
      by (cases "lift_places q (own_place (focus p'))")
    have "Suc (ssize l' + (i - Suc (cumulated + ssize l'))) = i - cumulated"
      using ge idx by simp
    then show ?thesis
      using q pp p len idx by (intro exI [of _ "q @ [?fr]"]) (simp add: lift_places_append)
  qed
qed

text \<open>
  \<^verbatim>\<open>findNode(i)\<close> with \<open>i < size()\<close>: the node of rank \<open>i\<close>, with every flag on the way to
  it pushed down.
\<close>

lemma findNode_place:
  assumes "sizes_ok (dummy_son t)" and "i < tree_size t"
  shows "\<exists>p a x l r s. findNode i t = Return p \<and> focus p = Node a x l r s False \<and>
           clean (dads p) \<and> place p = (take i (contents t), drop (Suc i) (contents t)) \<and>
           contents (close p) = contents t \<and> sizes_ok (dummy_son (close p))"
proof -
  from findNode_correct [OF assms] obtain p where
    p: "findNode i t = Return p" "focus p \<noteq> Null" "contents (close p) = contents t"
      "sizes_ok (dummy_son (close p))"
    by blast
  from findNode_loop_place [of i 0 "root t" p] p(1) assms obtain q where
    q: "dads p = q" "clean q" "\<not> reverse_flag (focus p)"
      "length (fst (lift_places q (own_place (focus p)))) = i"
    by (auto simp: findNode_def root_def tree_size_def)
  from p(2) q(3) obtain a x l r s where fp: "focus p = Node a x l r s False"
    by (cases "focus p") auto
  have c: "contents t = fst (place p) @ x # snd (place p)"
    using contents_place [OF fp] p(3) by simp
  have len: "length (fst (place p)) = i"
    using q by (simp add: place_def)
  have "take i (contents t) = fst (place p)" "drop (Suc i) (contents t) = snd (place p)"
    using len by (simp_all add: c)
  then have "place p = (take i (contents t), drop (Suc i) (contents t))"
    by (cases "place p") simp
  with p fp q show ?thesis by blast
qed

lemma lift_places_clean:
  "clean path \<Longrightarrow>
   lift_places path (pre, post) = (fst (around path) @ pre, post @ snd (around path))"
  unfolding around_def
proof (induction path arbitrary: pre post)
  case Nil
  then show ?case by simp
next
  case (Cons v path)
  obtain d a x other s where v: "v = Frame d a x other s False"
    using Cons.prems by (cases v) auto
  from Cons.prems have cl: "clean path" by simp
  show ?case
    using Cons.IH [OF cl, of "seq other @ x # pre" post] Cons.IH [OF cl, of "seq other @ [x]" "[]"]
      Cons.IH [OF cl, of pre "post @ x # seq other"] Cons.IH [OF cl, of "[]" "x # seq other"]
    by (cases d) (simp_all add: v)
qed

lemma around_Cons:
  "clean path \<Longrightarrow>
   around (Frame d a x other s False # path) =
     (if d then (fst (around path) @ seq other @ [x], snd (around path))
      else (fst (around path), x # seq other @ snd (around path)))"
  using lift_places_clean [of path "seq other @ [x]" "[]"]
    lift_places_clean [of path "[]" "x # seq other"]
  by (simp add: around_def)

lemma place_clean:
  "clean (dads c) \<Longrightarrow> focus c = Node a x l r s False \<Longrightarrow>
   place c = (fst (around (dads c)) @ seq l, seq r @ snd (around (dads c)))"
  by (simp add: place_def lift_places_clean)

lemma seq_Nil_iff: "seq t = [] \<longleftrightarrow> t = Null"
  by (cases t) auto

lemma descend_last:
  "focus d = Node a x l r s False \<Longrightarrow> clean (dads d) \<Longrightarrow>
   \<exists>a' l' s'. focus (descend True d) = Node a' (last (seq (focus d))) l' Null s' False \<and>
     clean (dads (descend True d)) \<and>
     place (descend True d) =
       (fst (around (dads d)) @ butlast (seq (focus d)), snd (around (dads d)))"
proof (induction "True" d arbitrary: a x l r s rule: descend.induct)
  case (1 d)
  obtain t path ds where d: "d = Cursor t path ds" by (cases d)
  with "1.prems" have t: "t = Node a x l r s False" and cl: "clean path" by simp_all
  show ?case
  proof (cases r)
    case Null
    then have "descend True d = d"
      using d t by (subst descend.simps) simp
    then show ?thesis
      using d t Null cl place_clean [of d a x l r s] by simp
  next
    case (Node a2 x2 l2 r2 s2 f2)
    let ?fr = "Frame True a x l s False"
    let ?d2 = "push_focus (down True d)"
    have d2: "?d2 = Cursor (push r) (?fr # path) ds" using d t by simp
    obtain l3 r3 where pr: "push r = Node a2 x2 l3 r3 s2 False"
      using Node by (cases f2) auto
    have step: "descend True d = descend True ?d2"
      using d t Node by (subst descend.simps) simp
    have fd: "focus (down True d) = Node a2 x2 l2 r2 s2 f2" using d t Node by simp
    have "\<exists>a' l' s'. focus (descend True ?d2) = Node a' (last (seq (focus ?d2))) l' Null s' False \<and>
      clean (dads (descend True ?d2)) \<and>
      place (descend True ?d2) =
       (fst (around (dads ?d2)) @ butlast (seq (focus ?d2)), snd (around (dads ?d2)))"
      using cl by (intro "1.hyps" [OF _ fd, of a x l r s False a2 x2 l3 r3 s2])
                  (simp_all add: "1.prems" d2 pr)
    moreover have "seq r \<noteq> []" using Node by (simp add: seq_Nil_iff)
    ultimately show ?thesis
      using step d t cl by (simp add: d2 around_Cons butlast_append)
  qed
qed

lemma climb_dec_place:
  "clean (dads e) \<Longrightarrow>
   (case climb_dec e of
      Throw ex t \<Rightarrow> fst (around (dads e)) = [] \<and> t = close e
    | Return e' \<Rightarrow>
        fst (around (dads e)) \<noteq> [] \<and> clean (dads e') \<and>
        (\<exists>a l r s. focus e' = Node a (last (fst (around (dads e)))) l r s False) \<and>
        place e' = (butlast (fst (around (dads e))), seq (focus e) @ snd (around (dads e)))
    | UB b \<Rightarrow> False)"
proof (induction e rule: climb_dec.induct)
  case (1 t ds)
  then show ?case by (simp add: around_def)
next
  case (2 t v path ds)
  obtain d a x other s where v: "v = Frame d a x other s False"
    using "2.prems" by (cases v) auto
  from "2.prems" have cl: "clean path" by simp
  show ?case
  proof (cases d)
    case True
    then show ?thesis
      using v cl place_clean [of "Cursor (Node a x other t s False) path ds" a x other t s]
      by (simp add: around_Cons butlast_append)
  next
    case False
    let ?e2 = "Cursor (attach v t) path ds"
    have eq: "climb_dec (Cursor t (v # path) ds) = climb_dec ?e2"
      using False v by simp
    have ar: "around (v # path) = (fst (around path), x # seq other @ snd (around path))"
      using False v cl by (simp add: around_Cons)
    have sq: "seq (attach v t) = seq t @ x # seq other"
      using False v by simp
    have ih: "case climb_dec ?e2 of
      Throw ex t' \<Rightarrow> fst (around (dads ?e2)) = [] \<and> t' = close ?e2
    | Return e' \<Rightarrow>
        fst (around (dads ?e2)) \<noteq> [] \<and> clean (dads e') \<and>
        (\<exists>a l r s. focus e' = Node a (last (fst (around (dads ?e2)))) l r s False) \<and>
        place e' = (butlast (fst (around (dads ?e2))), seq (focus ?e2) @ snd (around (dads ?e2)))
    | UB b \<Rightarrow> False"
      using False v cl by (intro "2.IH") simp_all
    show ?thesis
    proof (cases "climb_dec ?e2")
      case (Return e')
      with ih show ?thesis
        unfolding eq by (simp add: ar sq)
    next
      case (Throw ex t')
      with ih show ?thesis
        unfolding eq by (simp add: ar)
    next
      case (UB b)
      with ih show ?thesis by simp
    qed
  qed
qed

lemma climb_dec_throws: "climb_dec e = Throw ex t \<Longrightarrow> ex = runtime_error"
  by (induction e rule: climb_dec.induct) (auto split: if_splits)

lemma dec_throws: "dec r = Throw ex t \<Longrightarrow> ex = runtime_error"
  by (cases r) (auto simp: Let_def split: tree.splits dest: climb_dec_throws)

text \<open>
  \<^verbatim>\<open>operator--\<close> from a node whose flag and whose ancestors' flags are clear: it throws when
  nothing is before the node, and otherwise stops on the element just before it.
\<close>

lemma dec_place:
  assumes "focus c = Node a x l r s False" and "clean (dads c)"
  shows "case dec (At c) of
      Throw ex t \<Rightarrow> fst (place c) = [] \<and> t = close c
    | Return c' \<Rightarrow>
        (\<exists>a' y l' r' s'. focus c' = Node a' y l' r' s' False \<and>
           fst (place c) = fst (place c') @ [y] \<and> snd (place c') = x # snd (place c))
    | UB b \<Rightarrow> False"
proof -
  obtain path ds where c: "c = Cursor (Node a x l r s False) path ds"
    using assms(1) by (cases c) auto
  have pc: "push_focus c = c" using c by simp
  have pl: "place c = (fst (around path) @ seq l, seq r @ snd (around path))"
    using place_clean [OF assms(2) assms(1)] c by simp
  show ?thesis
  proof (cases l)
    case Null
    have eq: "dec (At c) = climb_dec c"
      using c Null by (simp add: Let_def)
    note ih = climb_dec_place [OF assms(2)]
    show ?thesis
    proof (cases "climb_dec c")
      case (Return e')
      with ih show ?thesis
        unfolding eq using pl Null c by auto
    next
      case (Throw ex t)
      with ih show ?thesis
        unfolding eq using pl Null c by simp
    next
      case (UB b)
      with ih show ?thesis by simp
    qed
  next
    case (Node a2 x2 l2 r2 s2 f2)
    let ?fr = "Frame False a x r s False"
    let ?d = "push_focus (down False c)"
    have d: "?d = Cursor (push l) (?fr # path) ds" using c by simp
    obtain l3 r3 where pl3: "push l = Node a2 x2 l3 r3 s2 False"
      using Node by (cases f2) auto
    have eq: "dec (At c) = Return (descend True ?d)"
      using c Node by (simp add: Let_def)
    have cl: "clean path" using assms(2) c by simp
    have fd: "focus ?d = Node a2 x2 l3 r3 s2 False" "dads ?d = ?fr # path"
      "seq (focus ?d) = seq l"
      by (simp_all add: d pl3 [symmetric])
    have cd: "clean (dads ?d)" using cl fd(2) by simp
    from descend_last [OF fd(1) cd] obtain a' l' s' where
      r0: "focus (descend True ?d) = Node a' (last (seq (focus ?d))) l' Null s' False"
        "place (descend True ?d) =
           (fst (around (dads ?d)) @ butlast (seq (focus ?d)), snd (around (dads ?d)))"
      by blast
    have r: "focus (descend True ?d) = Node a' (last (seq l)) l' Null s' False"
        "place (descend True ?d) =
           (fst (around (?fr # path)) @ butlast (seq l), snd (around (?fr # path)))"
      using r0 unfolding fd(2) fd(3) by simp_all
    have ne: "seq l \<noteq> []" using Node by (simp add: seq_Nil_iff)
    have "fst (place c) = fst (place (descend True ?d)) @ [last (seq l)]"
      using r(2) pl cl ne by (simp add: around_Cons)
    moreover have "snd (place (descend True ?d)) = x # snd (place c)"
      using r(2) pl cl by (simp add: around_Cons)
    ultimately show ?thesis
      unfolding eq using r(1) by simp
  qed
qed

section \<open>split, merge and reverse on the ranges they handle\<close>

lemma contents_empty_tree [simp]: "contents (dummy_link Null) = []"
  by (simp add: dummy_link_def contents_def)

lemma contents_dummy_link [simp]: "contents (dummy_link t) = seq t"
  by (simp add: dummy_link_def contents_def)

text \<open>\<^verbatim>\<open>split(i)\<close> with \<open>i < size()\<close>.\<close>

lemma split_correct:
  assumes "sizes_ok (dummy_son t)" and "i < tree_size t"
  shows "\<exists>t1 t2. split i t = Return (t1, t2) \<and>
           contents t1 = take i (contents t) \<and> contents t2 = drop i (contents t) \<and>
           sizes_ok (dummy_son t1) \<and> sizes_ok (dummy_son t2)"
proof -
  from findNode_place [OF assms] obtain p a x l r s where
    p: "findNode i t = Return p" "focus p = Node a x l r s False" "clean (dads p)"
      "place p = (take i (contents t), drop (Suc i) (contents t))"
      "contents (close p) = contents t" "sizes_ok (dummy_son (close p))"
    by blast
  have ct: "contents t = take i (contents t) @ x # drop (Suc i) (contents t)"
    using contents_place [OF p(2)] p(4,5) by simp
  have sp: "split i t = split_ref (At p)" using p(1) by (simp add: split_def)
  have ok: "outcome_ok (\<lambda>(t1, t2). sizes_ok (dummy_son t1) \<and> sizes_ok (dummy_son t2)) (split i t)"
    by (rule split_ok [OF assms(1)])
  have dok: "outcome_ok (\<lambda>c. focus c \<noteq> Null \<and> sizes_ok (dummy_son (close c))) (dec (At p))"
    using dec_ok [of "At p"] p(6) by simp
  note dp = dec_place [OF p(2) p(3)]
  show ?thesis
  proof (cases "dec (At p)")
    case (Throw ex t')
    with dp have e: "fst (place p) = []" "t' = close p" by simp_all
    have ex: "ex = runtime_error" using Throw by (rule dec_throws)
    have "take i (contents t) = []" using e(1) p(4) by simp
    then have i0: "i = 0" using assms ct
      by (metis append_Nil list.distinct(1) take_eq_Nil)
    have "split i t = Return (dummy_link Null, dummy_link (dummy_son (close p)))"
      using sp Throw ex e(2) by (simp add: split_ref_def swap_def empty_tree_def)
    moreover have "contents (dummy_link (dummy_son (close p))) = contents t"
      using p(5) by (simp add: contents_def dummy_link_def)
    ultimately show ?thesis
      using i0 p(6) by simp
  next
    case (Return c')
    with dp obtain a' y l' r' s' where
      c': "focus c' = Node a' y l' r' s' False" "fst (place p) = fst (place c') @ [y]"
        "snd (place c') = x # snd (place p)"
      by auto
    from Return dok have cok: "sizes_ok (dummy_son (close c'))" by simp
    from splay_root [OF c'(1)] obtain n l2 r2 s2 ds where
      sr: "splay (At c') = Return (Cursor (Node n y l2 r2 s2 False) [] ds)"
        "seq l2 = fst (place c')" "seq r2 = snd (place c')"
        "near_ok c' \<longrightarrow> sizes_ok (Node n y l2 r2 s2 False)"
      by blast
    have so: "sizes_ok l2" "sizes_ok r2"
      using sr(4) near_ok_close [OF cok] by simp_all
    have res: "split i t =
        Return (\<lparr>dummy_son = updateSubtreeSize (Node n y l2 Null s2 False), dummy_size = ds\<rparr>,
                dummy_link r2)"
      using sp Return sr(1) by (simp add: split_ref_def)
    have "seq l2 @ [y] = take i (contents t)"
      using sr(2) c'(2) p(4) by simp
    moreover have "seq r2 = drop i (contents t)"
    proof -
      have "seq r2 = x # drop (Suc i) (contents t)" using sr(3) c'(3) p(4) by simp
      moreover have "i < length (contents t)"
        using assms by (simp add: tree_size_length)
      moreover have "contents t ! i = x"
        using ct \<open>i < length (contents t)\<close>
        by (metis length_take min.absorb2 less_imp_le nth_append_length)
      ultimately show ?thesis
        using Cons_nth_drop_Suc [of i "contents t"] by simp
    qed
    ultimately show ?thesis
      using res so by (simp add: contents_def dummy_link_def)
  next
    case (UB b)
    with dp show ?thesis by simp
  qed
qed

lemma contents_Nil_iff: "contents t = [] \<longleftrightarrow> tree_empty t"
  by (cases "dummy_son t") (auto simp: contents_def tree_empty_def)

text \<open>\<^verbatim>\<open>merge(rhs)\<close> appends the argument's sequence and leaves the argument empty.\<close>

lemma merge_correct:
  assumes "sizes_ok (dummy_son this)" and "sizes_ok (dummy_son rhs)"
  shows "\<exists>t' r'. merge this rhs = Return (t', r') \<and>
           contents t' = contents this @ contents rhs \<and> contents r' = [] \<and>
           sizes_ok (dummy_son t') \<and> sizes_ok (dummy_son r')"
proof (cases "tree_empty this")
  case True
  then have "contents this = []" by (simp add: contents_Nil_iff)
  with True assms show ?thesis
    by (simp add: merge_def swap_def contents_def dummy_link_def)
next
  case False
  show ?thesis
  proof (cases "tree_empty rhs")
    case True
    then have "contents rhs = []" by (simp add: contents_Nil_iff)
    with True False assms show ?thesis by (simp add: merge_def)
  next
    case rhs_ne: False
    let ?n = "tree_size this"
    let ?c = "contents this"
    have len: "?n = length ?c" using assms(1) by (rule tree_size_length)
    have "?c \<noteq> []" using False by (simp add: contents_Nil_iff)
    then have pos: "?n - 1 < ?n" using len by simp
    from findNode_place [OF assms(1) pos] obtain p a x l r s where
      p: "findNode (?n - 1) this = Return p" "focus p = Node a x l r s False"
        "place p = (take (?n - 1) ?c, drop (Suc (?n - 1)) ?c)"
        "contents (close p) = ?c" "sizes_ok (dummy_son (close p))"
      by blast
    have c: "?c = take (?n - 1) ?c @ [x]"
      using contents_place [OF p(2)] p(3,4) len by simp
    from splay_root [OF p(2)] obtain n l2 r2 s2 ds where
      sr: "splay (At p) = Return (Cursor (Node n x l2 r2 s2 False) [] ds)"
        "seq l2 = fst (place p)" "seq r2 = snd (place p)"
        "near_ok p \<longrightarrow> sizes_ok (Node n x l2 r2 s2 False)"
      by blast
    have so: "sizes_ok l2" using sr(4) near_ok_close [OF p(5)] by simp
    have "merge this rhs =
        Return (\<lparr>dummy_son = link (dummy_son rhs) True (Node n x l2 r2 s2 False),
                 dummy_size = ds\<rparr>, rhs\<lparr>dummy_son := Null\<rparr>)"
      using False rhs_ne p(1) sr(1) by (simp add: merge_def)
    moreover have "seq l2 @ x # contents rhs = ?c @ contents rhs"
      using sr(2) p(3) c by (metis append.assoc append_Cons append_Nil fst_conv)
    ultimately show ?thesis
      using so assms(2) by (simp add: contents_def)
  qed
qed

text \<open>
  \<^verbatim>\<open>merge\<close> of a container with itself returns and leaves the container empty, whatever it
  held.
\<close>

lemma merge_self_correct:
  assumes "sizes_ok (dummy_son this)"
  shows "\<exists>t' l. merge_self this = Return (t', l) \<and> dummy_son t' = Null \<and> contents t' = [] \<and>
           tree_size t' = 0 \<and> (l = None) = tree_empty this"
proof (cases "tree_empty this")
  case True
  then show ?thesis
    by (simp add: merge_self_def swap_def contents_def dummy_link_def tree_size_def
             tree_empty_def split: tree.splits)
next
  case False
  let ?n = "tree_size this"
  have len: "?n = length (contents this)" using assms by (rule tree_size_length)
  have "contents this \<noteq> []" using False by (simp add: contents_Nil_iff)
  then have pos: "?n - 1 < ?n" using len by simp
  from findNode_correct [OF assms pos] obtain p where
    p: "findNode (?n - 1) this = Return p" "focus p \<noteq> Null"
    by blast
  from splay_correct [OF p(2)] obtain c where
    c: "splay (At p) = Return c" "root_data (close c) = Some (data (focus p))"
    by blast
  from c(2) obtain a x l r s f where "dummy_son (close c) = Node a x l r s f"
    by (cases "dummy_son (close c)") (simp_all add: root_data_def)
  with False p(1) c(1) show ?thesis
    by (simp add: merge_self_def contents_def tree_size_def)
qed

text \<open>The round trip \<^verbatim>\<open>split(i)\<close>, \<^verbatim>\<open>merge\<close> with \<open>i < size()\<close>.\<close>

lemma split_then_merge_correct:
  assumes "sizes_ok (dummy_son t)" and "i < tree_size t"
  shows "\<exists>t' r. split_then_merge i t = Return (t', r) \<and>
           contents t' = contents t \<and> contents r = []"
proof -
  from split_correct [OF assms] obtain t1 t2 where
    s: "split i t = Return (t1, t2)" "contents t1 = take i (contents t)"
      "contents t2 = drop i (contents t)" "sizes_ok (dummy_son t1)" "sizes_ok (dummy_son t2)"
    by blast
  from merge_correct [OF s(4,5)] obtain t' r where
    "merge t1 t2 = Return (t', r)" "contents t' = contents t1 @ contents t2" "contents r = []"
    by blast
  with s show ?thesis by (simp add: split_then_merge_def)
qed

lemma contents_reverseTree [simp]: "contents (reverseTree t) = rev (contents t)"
  by (cases "dummy_son t") (auto simp: reverseTree_def contents_def tree_empty_def)

text \<open>
  \<^verbatim>\<open>reverse(first, last)\<close> on the whole sequence, and on a range \<open>first < last < size()\<close>.
\<close>

lemma reverse_correct:
  assumes "sizes_ok (dummy_son t)"
    and "first = 0 \<and> last' = tree_size t \<or> first < last' \<and> last' < tree_size t"
  shows "\<exists>t'. reverse first last' t = Return t' \<and>
           contents t' =
             take first (contents t) @ rev (take (last' - first) (drop first (contents t))) @
             drop last' (contents t) \<and>
           sizes_ok (dummy_son t')"
proof (cases "first = 0 \<and> last' = tree_size t")
  case True
  then show ?thesis
    using assms(1) by (simp add: reverse_def tree_size_length)
next
  case False
  with assms(2) have r: "first < last'" "last' < tree_size t" by auto
  let ?c = "contents t"
  have len: "tree_size t = length ?c" using assms(1) by (rule tree_size_length)
  from split_correct [OF assms(1) r(2)] obtain t1 right where
    s1: "split last' t = Return (t1, right)" "contents t1 = take last' ?c"
      "contents right = drop last' ?c" "sizes_ok (dummy_son t1)" "sizes_ok (dummy_son right)"
    by blast
  have "tree_size t1 = last'"
    using s1(2,4) r(2) len by (simp add: tree_size_length)
  with r(1) have "first < tree_size t1" by simp
  from split_correct [OF s1(4) this] obtain t2 center where
    s2: "split first t1 = Return (t2, center)" "contents t2 = take first (contents t1)"
      "contents center = drop first (contents t1)" "sizes_ok (dummy_son t2)"
      "sizes_ok (dummy_son center)"
    by blast
  have "sizes_ok (dummy_son (reverseTree center))" using s2(5) by simp
  from merge_correct [OF s2(4) this] obtain t3 center' where
    m1: "merge t2 (reverseTree center) = Return (t3, center')"
      "contents t3 = contents t2 @ rev (contents center)" "sizes_ok (dummy_son t3)"
    by auto
  from merge_correct [OF m1(3) s1(5)] obtain t4 right' where
    m2: "merge t3 right = Return (t4, right')" "contents t4 = contents t3 @ contents right"
      "sizes_ok (dummy_son t4)"
    by auto
  have "reverse first last' t = Return t4"
    using False r s1(1) s2(1) m1(1) m2(1) by (simp add: reverse_def)
  moreover have "contents t4 =
      take first ?c @ rev (take (last' - first) (drop first ?c)) @ drop last' ?c"
    using m2(2) m1(2) s2(2,3) s1(2,3) r(1) by (simp add: drop_take min_def)
  ultimately show ?thesis using m2(3) by simp
qed

text \<open>
  \<^verbatim>\<open>reverse(first, last)\<close> with \<open>first \<le> last = size()\<close> and \<open>first > 0\<close>, or with
  \<open>first = last < size()\<close>, dereferences a null pointer.
\<close>

lemma reverse_null_deref:
  assumes "sizes_ok (dummy_son t)"
    and "0 < first \<and> first \<le> last' \<and> last' = tree_size t \<or> first = last' \<and> last' < tree_size t"
  shows "reverse first last' t = UB null_deref"
proof (cases "last' = tree_size t")
  case True
  with assms show ?thesis
    by (auto simp: reverse_def split_at_size_always_null_deref)
next
  case False
  with assms(2) have r: "first = last'" "last' < tree_size t" by auto
  let ?c = "contents t"
  have len: "tree_size t = length ?c" using assms(1) by (rule tree_size_length)
  from split_correct [OF assms(1) r(2)] obtain t1 right where
    s1: "split last' t = Return (t1, right)" "contents t1 = take last' ?c"
      "sizes_ok (dummy_son t1)"
    by blast
  have "tree_size t1 = last'"
    using s1(2,3) r(2) len by (simp add: tree_size_length)
  then have "split first t1 = UB null_deref"
    using split_at_size_always_null_deref [OF s1(3)] r(1) by simp
  with s1(1) r False show ?thesis by (simp add: reverse_def)
qed

section \<open>insert on a container with no flag set\<close>

lemma locate_no_flags:
  "locate n t acc = Some (u, path) \<Longrightarrow> no_flags t \<Longrightarrow> clean acc \<Longrightarrow>
   no_flags u \<and> clean path \<and> (\<exists>x l r s f. u = Node n x l r s f)"
proof (induction t arbitrary: acc)
  case Null
  then show ?case by simp
next
  case (Node a x l r s f)
  show ?case
  proof (cases "n = a")
    case True
    with Node.prems show ?thesis by auto
  next
    case False
    show ?thesis
    proof (cases "locate n l (Frame False a x r s f # acc)")
      case None
      with False Node.prems have "locate n r (Frame True a x l s f # acc) = Some (u, path)"
        by simp
      from Node.IH(2) [OF this] Node.prems show ?thesis by simp
    next
      case (Some found)
      with False Node.prems have "locate n l (Frame False a x r s f # acc) = Some (u, path)"
        by simp
      from Node.IH(1) [OF this] Node.prems show ?thesis by simp
    qed
  qed
qed

lemma wraps_clean:
  "clean path \<Longrightarrow> wraps path xs = fst (around path) @ xs @ snd (around path)"
proof (induction path arbitrary: xs)
  case Nil
  then show ?case by (simp add: around_def)
next
  case (Cons v path)
  obtain d a x other s where v: "v = Frame d a x other s False"
    using Cons.prems by (cases v) auto
  from Cons.prems have cl: "clean path" by simp
  show ?case
    using Cons.IH [OF cl] cl by (cases d) (simp_all add: v around_Cons)
qed

text \<open>
  \<^verbatim>\<open>insert(pos, e)\<close> on a container with no flag set, for an iterator \<open>pos\<close> to a node of
  the container: the value goes immediately before the element of \<open>pos\<close>.
\<close>

lemma insert_it_no_flags:
  assumes "no_flags (dummy_son t)" and "resolve (It m) t = Some (At c)"
  shows "\<exists>x t'. deref (It m) t = Some x \<and>
           contents t = fst (place c) @ x # snd (place c) \<and>
           insert_it n (It m) e t = Return (It n, t') \<and>
           contents t' = fst (place c) @ e # x # snd (place c) \<and>
           deref (It n) t' = Some e"
proof -
  from assms(2) obtain u path where
    loc: "locate m (dummy_son t) [] = Some (u, path)" and c: "c = Cursor u path (dummy_size t)"
    by (auto split: option.splits)
  from locate_no_flags [OF loc assms(1)] obtain x l r s where
    u: "u = Node m x l r s False" and nf: "no_flags l" "no_flags r" and cl: "clean path"
    by auto
  have t: "close c = t" using resolve_close [OF assms(2)] by simp
  have fc: "focus c = Node m x l r s False" using c u by simp
  have pl: "place c = (fst (around path) @ seq l, seq r @ snd (around path))"
    using place_clean [of c m x l r s] cl c u by simp
  have ct: "contents t = fst (place c) @ x # snd (place c)"
    using contents_place [OF fc] t by simp
  have dr: "deref (It m) t = Some x" using loc u by simp
  have "\<exists>new. attach_new n e (At c) = Return new \<and> focus new = new_node n e \<and>
          contents (close new) = fst (place c) @ e # x # snd (place c)"
  proof (cases l)
    case Null
    let ?c1 = "link_focus (new_node n e) False c"
    have "attach_new n e (At c) = Return (down False ?c1)"
      using c u Null by simp
    moreover have "focus (down False ?c1) = new_node n e"
      using c u by simp
    moreover have "contents (close (down False ?c1)) = fst (place c) @ e # x # snd (place c)"
    proof -
      have "focus ?c1 \<noteq> Null" using c u by simp
      then have "close (down False ?c1) = close ?c1" by (rule close_down)
      then show ?thesis
        using c u Null cl pl by (simp add: contents_def seq_plug wraps_clean new_node_def)
    qed
    ultimately show ?thesis by blast
  next
    case (Node a' x' l' r' s' f')
    let ?p = "down False c"
    let ?c0 = "rightmost ?p"
    let ?c1 = "link_focus (new_node n e) True ?c0"
    have p: "?p = Cursor l (Frame False m x r s False # path) (dummy_size t)"
      using c u by simp
    from rightmost_no_flags [of ?p "new_node n e"] nf(1) Node
    have nn: "focus ?c0 \<noteq> Null" and
      w: "wraps (dads ?c0) (seq (link (new_node n e) True (focus ?c0))) =
            wraps (dads ?p) (seq (focus ?p) @ seq (new_node n e))"
      by (auto simp: p)
    obtain u0 path0 ds0 where c0: "?c0 = Cursor u0 path0 ds0" by (cases ?c0)
    with nn obtain a0 x0 l0 r0 s0 f0 where u0: "u0 = Node a0 x0 l0 r0 s0 f0"
      by (cases u0) auto
    have "attach_new n e (At c) = Return (down True ?c1)"
      using c u Node by simp
    moreover have "focus (down True ?c1) = new_node n e"
      using c0 u0 by simp
    moreover have "contents (close (down True ?c1)) = fst (place c) @ e # x # snd (place c)"
    proof -
      have "focus ?c1 \<noteq> Null" using c0 u0 by simp
      then have "close (down True ?c1) = close ?c1" by (rule close_down)
      moreover have "contents (close ?c1) =
          wraps (dads ?c0) (seq (link (new_node n e) True (focus ?c0)))"
        using c0 by (simp add: contents_def seq_plug)
      ultimately show ?thesis
        using w cl pl by (simp add: p wraps_clean new_node_def)
    qed
    ultimately show ?thesis by blast
  qed
  then obtain new where new: "attach_new n e (At c) = Return new" "focus new = new_node n e"
    "contents (close new) = fst (place c) @ e # x # snd (place c)"
    by blast
  have "focus new \<noteq> Null" using new(2) by (simp add: new_node_def)
  from splay_loop_correct [OF this] obtain c' where
    c': "splay_loop new = Return c'" "dads c' = []" "focus c' \<noteq> Null"
       "addr (focus c') = n" "data (focus c') = e" "contents (close c') = contents (close new)"
    using new(2) by (auto simp: new_node_def)
  obtain u' ds' where cc: "c' = Cursor u' [] ds'" using c'(2) by (cases c') auto
  with c' obtain l' r' s' f' where u': "u' = Node n e l' r' s' f'" by (cases u') auto
  have "insert_it n (It m) e t = Return (It n, close c')"
    using assms(2) new(1) c'(1) by (simp add: insert_it_def insert_ref_def)
  moreover have "deref (It n) (close c') = Some e"
    using cc u' by simp
  ultimately show ?thesis using c'(6) new(3) ct dr by simp
qed

section \<open>The claims\<close>

text \<open>
  C1 (refuted on the code). \<^verbatim>\<open>reverse(first, last)\<close> with \<open>0 < first \<le> last = size()\<close>
  passes both range checks and calls \<^verbatim>\<open>split(last)\<close>, whose \<^verbatim>\<open>findNode(size())\<close> walks off
  the tree and dereferences a null pointer: on \<open>[1, 2, 3]\<close>, \<^verbatim>\<open>reverse(1, 3)\<close> does not
  produce \<open>[1, 3, 2]\<close>.
\<close>

theorem reverse_to_the_end_null_deref:
  "reverse 1 3 (of_list [1, 2, 3 :: nat]) = UB null_deref"
  by code_simp

text \<open>
  C2 (refuted on the code). \<^verbatim>\<open>split(size())\<close> does not return an empty container:
  \<^verbatim>\<open>findNode(size())\<close> dereferences a null pointer, on \<open>[1, 2, 3]\<close> with index 3 and on
  the empty container with index 0.
\<close>

theorem split_at_size_null_deref:
  "split 3 (of_list [1, 2, 3 :: nat]) = UB null_deref \<and>
   split 0 (empty_tree :: nat SplayTree) = UB null_deref"
  by code_simp

text \<open>
  C3 (refuted on the code). \<^verbatim>\<open>erase\<close> returns the right son of the root it is left
  with, whatever element that is. \<^verbatim>\<open>erase(begin())\<close> on \<open>[1, 2, 3, 4, 5]\<close> leaves
  \<open>[2, 3, 4, 5]\<close> and returns an iterator to the element 3, not to the element 2 that
  followed the erased one; on \<open>[1, 2]\<close> it leaves \<open>[2]\<close> and returns \<^verbatim>\<open>end()\<close>, although
  neither the container was emptied nor the tail removed.
\<close>

theorem erase_returns_wrong_iterator:
  "(case erase (It 0) (of_list [1, 2, 3, 4, 5 :: nat]) of
      Return (it, t) \<Rightarrow> contents t = [2, 3, 4, 5] \<and> deref it t = Some 3
    | Throw e t \<Rightarrow> False
    | UB b \<Rightarrow> False) \<and>
   (case erase (It 0) (of_list [1, 2 :: nat]) of
      Return (it, t) \<Rightarrow> contents t = [2] \<and> it = End
    | Throw e t \<Rightarrow> False
    | UB b \<Rightarrow> False)"
  by code_simp

text \<open>
  C4 (refuted on the code). \<^verbatim>\<open>insert\<close> walks \<^verbatim>\<open>son_\<close> pointers without \<^verbatim>\<open>push()\<close>: after
  \<^verbatim>\<open>reverse(0, 3)\<close> on \<open>[1, 2, 3]\<close> the sequence is \<open>[3, 2, 1]\<close>, and \<^verbatim>\<open>insert(end(), 9)\<close>
  gives \<open>[9, 3, 2, 1]\<close>, not \<open>[3, 2, 1, 9]\<close>.
\<close>

theorem insert_ignores_pending_reverse:
  "(case reverse 0 3 (of_list [1, 2, 3 :: nat]) of
      Return t \<Rightarrow>
        contents t = [3, 2, 1] \<and>
        (case insert_it 9 End 9 t of
           Return (it, t') \<Rightarrow> contents t' = [9, 3, 2, 1] \<and> deref it t' = Some 9
         | Throw e t' \<Rightarrow> False
         | UB b \<Rightarrow> False)
    | Throw e t \<Rightarrow> False
    | UB b \<Rightarrow> False)"
  by code_simp

text \<open>
  C5 (refuted on the code). With \<open>i = size()\<close> the round trip stops in \<^verbatim>\<open>split\<close>, at the
  null dereference of \<^verbatim>\<open>findNode(size())\<close>: on \<open>[7, 8]\<close> with \<open>i = 2\<close> nothing is
  restored.
\<close>

theorem split_then_merge_at_size_null_deref:
  "split_then_merge 2 (of_list [7, 8 :: nat]) = UB null_deref"
  by code_simp

text \<open>
  C6. For every container that satisfies the size invariant and every \<open>i < size()\<close>,
  \<^verbatim>\<open>at(i)\<close> returns the element at position \<open>i\<close> of the logical sequence and leaves the
  sequence unchanged, and this after any run \<open>js\<close> of earlier \<^verbatim>\<open>at\<close> calls with valid
  indices, each of which returned the element at its position.
\<close>

theorem at_returns_element:
  assumes "sizes_ok (dummy_son t)" and "\<forall>j \<in> set js. j < tree_size t" and "i < tree_size t"
  shows "\<exists>t1 t2. at_all js t = Return (map (\<lambda>j. contents t ! j) js, t1) \<and>
           at i t1 = Return (contents t ! i, t2) \<and> contents t2 = contents t"
proof -
  from at_all_correct [OF assms(1,2)] obtain t1 where
    t1: "at_all js t = Return (map (\<lambda>j. contents t ! j) js, t1)" "contents t1 = contents t"
      "sizes_ok (dummy_son t1)"
    by blast
  have "tree_size t1 = tree_size t"
    using t1 assms(1) by (simp add: tree_size_length)
  with assms(3) at_correct [OF t1(3), of i] t1(2) t1(1) show ?thesis by auto
qed

theorem at_returns_element_witness:
  "sizes_ok (dummy_son (of_list [10, 20, 30, 40, 50 :: nat])) \<and>
   4 < tree_size (of_list [10, 20, 30, 40, 50 :: nat]) \<and>
   1 < tree_size (of_list [10, 20, 30, 40, 50 :: nat]) \<and>
   (\<exists>t1 t2. at_all [4, 0, 4] (of_list [10, 20, 30, 40, 50 :: nat]) = Return ([50, 10, 50], t1) \<and>
      at 1 t1 = Return (20, t2) \<and> contents t2 = [10, 20, 30, 40, 50])"
  using at_returns_element [of "of_list [10, 20, 30, 40, 50 :: nat]" "[4, 0, 4]" 1]
  by (simp add: of_list_five_sizes_ok of_list_five_size of_list_five_contents)

text \<open>
  C7. For every container, \<^verbatim>\<open>at(size())\<close> and \<^verbatim>\<open>reverse(0, size() + 1)\<close> both throw
  \<^verbatim>\<open>std::out_of_range\<close>, and the container at the throw is the container before the call,
  the sentinel's counter included: nothing was mutated.
\<close>

theorem at_and_reverse_out_of_range:
  "at (tree_size t) t = Throw out_of_range t \<and>
   reverse 0 (tree_size t + 1) t = Throw out_of_range t"
  by (simp add: at_def reverse_def)

theorem at_and_reverse_out_of_range_witness:
  "at (tree_size (of_list [1, 2, 3 :: nat])) (of_list [1, 2, 3 :: nat])
     = Throw out_of_range (of_list [1, 2, 3]) \<and>
   reverse 0 (tree_size (of_list [1, 2, 3 :: nat]) + 1) (of_list [1, 2, 3 :: nat])
     = Throw out_of_range (of_list [1, 2, 3])"
  using at_and_reverse_out_of_range [of "of_list [1, 2, 3 :: nat]"] by simp

text \<open>
  C8. After any sequence of public calls (constructors, \<^verbatim>\<open>at\<close>, \<^verbatim>\<open>insert\<close>, \<^verbatim>\<open>erase\<close>,
  \<^verbatim>\<open>split\<close>, \<^verbatim>\<open>merge\<close>, \<^verbatim>\<open>reverse\<close>, \<^verbatim>\<open>swap\<close>, \<^verbatim>\<open>begin\<close> and iterator steps) that
  started with no container, in every container every node below the sentinel has
  \<^verbatim>\<open>subtree_size_\<close> equal to one plus the counters of its sons (an absent son counting 0), and
  \<^verbatim>\<open>size()\<close> is the counter of the sentinel's left son (0 when there is none), which is the
  length of the sequence. The calls are taken as the code runs them, whatever their
  arguments: an iterator may point into the receiver, into another container or to a leaked
  node, \<^verbatim>\<open>erase(first, last)\<close> may have \<open>first\<close> at or after \<open>last\<close> (it then destroys other
  elements than the ones named, see \<open>erase_same_iterator\<close>), \<^verbatim>\<open>merge\<close> may receive the
  receiver itself (see \<open>merge_self_correct\<close>), and calls that throw are part of the sequence.
  A sequence has no final state only when a call dereferences a null pointer, follows an
  iterator to a node that was destroyed, or names a container that was never created.
\<close>

theorem size_invariant_after_calls:
  assumes "run calls no_objects = Some p" and "t \<in> set (containers p)"
  shows "sizes_ok (dummy_son t) \<and> tree_size t = ssize (dummy_son t) \<and>
         tree_size t = length (contents t)"
proof -
  have "all_ok (containers (no_objects :: 'a program))" by (simp add: all_ok_def no_objects_def)
  from run_ok [OF this assms(1)] assms(2) have "sizes_ok (dummy_son t)"
    by (simp add: all_ok_def)
  then show ?thesis
    using ssize_length [of "dummy_son t"] by (simp add: tree_size_def contents_def)
qed

theorem size_invariant_after_calls_witness:
  "run example_calls no_objects \<noteq> None \<and>
   sizes_ok (dummy_son (containers (the (run example_calls no_objects)) ! 6)) \<and>
   tree_size (containers (the (run example_calls no_objects)) ! 6) =
     ssize (dummy_son (containers (the (run example_calls no_objects)) ! 6)) \<and>
   tree_size (containers (the (run example_calls no_objects)) ! 6) =
     length (contents (containers (the (run example_calls no_objects)) ! 6)) \<and>
   contents (containers (the (run example_calls no_objects)) ! 6) = [6, 50, 7, 8, 9]"
proof -
  let ?t = "\<lparr>dummy_son =
              Node 21 7 (Node 30 50 (Node 20 6 Null Null 1 False) Null 2 False)
                (Node 22 8 Null (Node 23 9 Null Null 1 False) 2 False) 5 False,
            dummy_size = (6::nat)\<rparr>"
  have "?t \<in> set (containers
          \<lparr>containers =
             [\<lparr>dummy_son = Null, dummy_size = 1\<rparr>, \<lparr>dummy_son = Null, dummy_size = 1\<rparr>,
              \<lparr>dummy_son = Null, dummy_size = 3\<rparr>, \<lparr>dummy_son = Null, dummy_size = 1\<rparr>,
              \<lparr>dummy_son = Null, dummy_size = 1\<rparr>, \<lparr>dummy_son = Null, dummy_size = 1\<rparr>, ?t],
           leaks =
             [Leak 0 1
                \<lparr>dummy_son = Node 1 2 Null (Node 40 60 Null Null 1 False) 2 False,
                   dummy_size = 3\<rparr>]\<rparr>)"
    by simp
  from size_invariant_after_calls [OF run_example_calls this] show ?thesis
    by (simp add: run_example_calls contents_def)
qed

text \<open>
  C9. For every container with no \<^verbatim>\<open>reverse_\<close> flag set, \<^verbatim>\<open>insert(end(), value)\<close> returns,
  the sequence is the old one with the value appended (the one-element sequence on the empty
  container), and the iterator returned dereferences to the value.
\<close>

theorem insert_end_appends:
  assumes "no_flags (dummy_son t)"
  shows "\<exists>t'. insert_it n End e t = Return (It n, t') \<and>
           contents t' = contents t @ [e] \<and>
           (tree_empty t \<longrightarrow> contents t' = [e]) \<and>
           deref (It n) t' = Some e"
proof -
  from insert_end_correct [OF assms, of n e] obtain t' where
    t': "insert_it n End e t = Return (It n, t')" "contents t' = contents t @ [e]"
      "deref (It n) t' = Some e"
    by blast
  have "tree_empty t \<longrightarrow> contents t = []"
    by (cases "dummy_son t") (simp_all add: tree_empty_def contents_def)
  with t' show ?thesis by auto
qed

theorem insert_end_appends_witness:
  "no_flags (dummy_son (of_list [1, 2, 3 :: nat])) \<and>
   (\<exists>t'. insert_it 7 End 4 (of_list [1, 2, 3 :: nat]) = Return (It 7, t') \<and>
      contents t' = [1, 2, 3, 4] \<and> deref (It 7) t' = Some 4) \<and>
   no_flags (dummy_son (empty_tree :: nat SplayTree)) \<and>
   (\<exists>t'. insert_it 7 End 4 (empty_tree :: nat SplayTree) = Return (It 7, t') \<and>
      contents t' = [4] \<and> deref (It 7) t' = Some 4)"
proof -
  have a: "no_flags (dummy_son (of_list [1, 2, 3 :: nat]))" by code_simp
  have b: "contents (of_list [1, 2, 3 :: nat]) = [1, 2, 3]" by code_simp
  have c: "no_flags (dummy_son (empty_tree :: nat SplayTree))" by code_simp
  have d: "contents (empty_tree :: nat SplayTree) = []" by code_simp
  show ?thesis
    using insert_end_appends [OF a, of 7 4] insert_end_appends [OF c, of 7 4] a b c d
    by auto
qed

text \<open>
  C10. For every container, \<^verbatim>\<open>erase(pos)\<close> with \<^verbatim>\<open>pos == end()\<close> throws
  \<^verbatim>\<open>std::runtime_error\<close> (from \<^verbatim>\<open>++pos\<close>), and the container at the throw is the container
  before the call.
\<close>

theorem erase_end_throws: "erase End t = Throw runtime_error t"
  by (simp add: erase_def erase_in_def inc_in_def only_def)

theorem erase_end_throws_witness:
  "erase End (of_list [1, 2, 3 :: nat]) = Throw runtime_error (of_list [1, 2, 3])"
  using erase_end_throws [of "of_list [1, 2, 3 :: nat]"] by simp

end
